theory Spec2Isabelle
  imports Complex_Main "HOL-Library.Word" "HOL-Library.Multiset"
begin

unbundle bit_operations_syntax

section \<open>Shape model and polygon builder\<close>

text \<open>
  The two programs of the repository place copies of one 15-vertex polygon in the plane.
  Quantities of type \<^verbatim>\<open>double\<close> and \<^verbatim>\<open>long double\<close> are embedded as \<^typ>\<open>real\<close>:
  every statement below is about the source evaluated in exact arithmetic, and says
  nothing about rounding. Array indices and element counts are \<^typ>\<open>nat\<close>; the fixed
  arrays of \<^verbatim>\<open>Cfg\<close> are functions from indices, of which the source may only touch the
  first \<open>MAX_N\<close>.
\<close>

definition MAX_N :: nat where
  "MAX_N = 200"

definition NV :: nat where
  "NV = 15"

definition PI :: real where
  "PI = 3.14159265358979323846"

definition TX :: "real list" where
  "TX = [0, 0.125, 0.0625, 0.2, 0.1, 0.35, 0.075, 0.075, -0.075, -0.075, -0.35, -0.1, -0.2, -0.0625, -0.125]"

definition TY :: "real list" where
  "TY = [0.8, 0.5, 0.5, 0.25, 0.25, 0, 0, -0.2, -0.2, 0, 0, 0.25, 0.25, 0.5, 0.5]"

record Pt =
  px :: real
  py :: real

record Poly =
  p :: "Pt list"
  x0 :: real
  y0 :: real
  x1 :: real
  y1 :: real

text \<open>\<^verbatim>\<open>Poly::bbox\<close>: the box starts at vertex 0 and is widened by the vertices 1 .. NV-1.\<close>

definition bbox :: "Pt list \<Rightarrow> Poly" where
  "bbox ps =
     fold (\<lambda>i q. q\<lparr>x0 := min (x0 q) (px (ps ! i)), x1 := max (x1 q) (px (ps ! i)),
                     y0 := min (y0 q) (py (ps ! i)), y1 := max (y1 q) (py (ps ! i))\<rparr>)
          [1..<NV]
          \<lparr>p = ps, x0 = px (ps ! 0), y0 = py (ps ! 0), x1 = px (ps ! 0), y1 = py (ps ! 0)\<rparr>"

definition getPoly :: "real \<Rightarrow> real \<Rightarrow> real \<Rightarrow> Poly" where
  "getPoly cx cy deg =
     (let r = deg * PI / 180; c = cos r; s = sin r
      in bbox (map (\<lambda>i. \<lparr>px = TX ! i * c - TY ! i * s + cx,
                           py = TX ! i * s + TY ! i * c + cy\<rparr>) [0..<NV]))"

section \<open>Overlap predicate\<close>

text \<open>\<^verbatim>\<open>pip\<close>: crossing-number test; \<open>j\<close> trails \<open>i\<close> and starts at the last vertex.\<close>

definition pip :: "real \<Rightarrow> real \<Rightarrow> Poly \<Rightarrow> bool" where
  "pip x y q =
     fst (fold (\<lambda>i (inside, j).
                  (if (py (p q ! i) > y) \<noteq> (py (p q ! j) > y) \<and>
                      x < (px (p q ! j) - px (p q ! i)) * (y - py (p q ! i))
                            / (py (p q ! j) - py (p q ! i)) + px (p q ! i)
                   then \<not> inside else inside, i))
               [0..<NV] (False, NV - 1))"

definition ccw :: "Pt \<Rightarrow> Pt \<Rightarrow> Pt \<Rightarrow> bool" where
  "ccw u v w = ((py w - py u) * (px v - px u) > (py v - py u) * (px w - px u))"

definition segInt :: "Pt \<Rightarrow> Pt \<Rightarrow> Pt \<Rightarrow> Pt \<Rightarrow> bool" where
  "segInt a b c d = (ccw a c d \<noteq> ccw b c d \<and> ccw a b c \<noteq> ccw a b d)"

definition overlap :: "Poly \<Rightarrow> Poly \<Rightarrow> bool" where
  "overlap a b =
     (if x1 a < x0 b \<or> x1 b < x0 a \<or> y1 a < y0 b \<or> y1 b < y0 a then False
      else if list_ex (\<lambda>i. pip (px (p a ! i)) (py (p a ! i)) b \<or>
                            pip (px (p b ! i)) (py (p b ! i)) a) [0..<NV] then True
      else list_ex (\<lambda>i. list_ex (\<lambda>j. segInt (p a ! i) (p a ! ((i + 1) mod NV))
                                               (p b ! j) (p b ! ((j + 1) mod NV)))
                                  [0..<NV]) [0..<NV])"

section \<open>Configurations\<close>

text \<open>
  \<^verbatim>\<open>struct Cfg\<close> of the generation driver: the count \<open>n\<close>, the pose arrays \<open>x\<close>, \<open>y\<close>,
  \<open>a\<close> and the polygon cache \<open>pl\<close>. The selectors carry the prefix \<open>cfg_\<close>.
\<close>

record Cfg =
  cfg_n :: nat
  cfg_x :: "nat \<Rightarrow> real"
  cfg_y :: "nat \<Rightarrow> real"
  cfg_a :: "nat \<Rightarrow> real"
  cfg_pl :: "nat \<Rightarrow> Poly"

text \<open>Assignments \<^verbatim>\<open>c.x[i] = v\<close>, \<^verbatim>\<open>c.y[i] = v\<close>, \<^verbatim>\<open>c.a[i] = v\<close>.\<close>

definition set_x :: "nat \<Rightarrow> real \<Rightarrow> Cfg \<Rightarrow> Cfg" where
  "set_x i v c = c\<lparr>cfg_x := (cfg_x c)(i := v)\<rparr>"

definition set_y :: "nat \<Rightarrow> real \<Rightarrow> Cfg \<Rightarrow> Cfg" where
  "set_y i v c = c\<lparr>cfg_y := (cfg_y c)(i := v)\<rparr>"

definition set_a :: "nat \<Rightarrow> real \<Rightarrow> Cfg \<Rightarrow> Cfg" where
  "set_a i v c = c\<lparr>cfg_a := (cfg_a c)(i := v)\<rparr>"

definition upd :: "nat \<Rightarrow> Cfg \<Rightarrow> Cfg" where
  "upd i c = c\<lparr>cfg_pl := (cfg_pl c)(i := getPoly (cfg_x c i) (cfg_y c i) (cfg_a c i))\<rparr>"

definition updAll :: "Cfg \<Rightarrow> Cfg" where
  "updAll c = fold upd [0..<cfg_n c] c"

definition hasOvl :: "Cfg \<Rightarrow> nat \<Rightarrow> bool" where
  "hasOvl c i = list_ex (\<lambda>j. i \<noteq> j \<and> overlap (cfg_pl c i) (cfg_pl c j)) [0..<cfg_n c]"

definition hasOvlPair :: "Cfg \<Rightarrow> nat \<Rightarrow> nat \<Rightarrow> bool" where
  "hasOvlPair c i j =
     (if overlap (cfg_pl c i) (cfg_pl c j) then True
      else list_ex (\<lambda>k. k \<noteq> i \<and> k \<noteq> j \<and>
                         (overlap (cfg_pl c i) (cfg_pl c k) \<or> overlap (cfg_pl c j) (cfg_pl c k)))
                   [0..<cfg_n c])"

definition anyOvl :: "Cfg \<Rightarrow> bool" where
  "anyOvl c =
     list_ex (\<lambda>i. list_ex (\<lambda>j. overlap (cfg_pl c i) (cfg_pl c j)) [i + 1..<cfg_n c]) [0..<cfg_n c]"

definition side :: "Cfg \<Rightarrow> real" where
  "side c =
     (if cfg_n c = 0 then 0
      else (let (bx0, bx1, by0, by1) =
                  fold (\<lambda>i (bx0, bx1, by0, by1).
                          (min bx0 (x0 (cfg_pl c i)), max bx1 (x1 (cfg_pl c i)),
                           min by0 (y0 (cfg_pl c i)), max by1 (y1 (cfg_pl c i))))
                       [1..<cfg_n c]
                       (x0 (cfg_pl c 0), x1 (cfg_pl c 0), y0 (cfg_pl c 0), y1 (cfg_pl c 0))
            in max (bx1 - bx0) (by1 - by0)))"

definition score :: "Cfg \<Rightarrow> real" where
  "score c = (let s = side c in s * s / real (cfg_n c))"

definition centroid :: "Cfg \<Rightarrow> real \<times> real" where
  "centroid c =
     (let (sx, sy) = fold (\<lambda>i (sx, sy). (sx + cfg_x c i, sy + cfg_y c i)) [0..<cfg_n c] (0, 0)
      in (sx / real (cfg_n c), sy / real (cfg_n c)))"

definition getBBox :: "Cfg \<Rightarrow> real \<times> real \<times> real \<times> real" where
  "getBBox c =
     fold (\<lambda>i (gx0, gy0, gx1, gy1).
             (min gx0 (x0 (cfg_pl c i)), min gy0 (y0 (cfg_pl c i)),
              max gx1 (x1 (cfg_pl c i)), max gy1 (y1 (cfg_pl c i))))
          [1..<cfg_n c]
          (x0 (cfg_pl c 0), y0 (cfg_pl c 0), x1 (cfg_pl c 0), y1 (cfg_pl c 0))"

definition findCornerTrees :: "Cfg \<Rightarrow> nat list" where
  "findCornerTrees c =
     (let (gx0, gy0, gx1, gy1) = getBBox c; eps = 0.01
      in filter (\<lambda>i. \<bar>x0 (cfg_pl c i) - gx0\<bar> < eps \<or> \<bar>x1 (cfg_pl c i) - gx1\<bar> < eps \<or>
                      \<bar>y0 (cfg_pl c i) - gy0\<bar> < eps \<or> \<bar>y1 (cfg_pl c i) - gy1\<bar> < eps)
                [0..<cfg_n c])"

section \<open>Random numbers\<close>

text \<open>
  The generation driver draws from a thread-local \<^verbatim>\<open>std::mt19937_64\<close>, a library engine
  that is not part of the repository. A seeded engine is represented by the sequence
  of the 64-bit values it will produce; the seeding function (seed to sequence) is a
  parameter \<open>mt\<close> of every operation that reseeds. \<^verbatim>\<open>rf\<close> consumes one value and scales it
  into the unit interval, \<^verbatim>\<open>ri\<close> consumes one value and reduces it modulo \<open>n\<close>
  (for \<open>n = 0\<close> the source divides by zero).
\<close>

type_synonym rng = "nat \<Rightarrow> 64 word"

definition rng_next :: "rng \<Rightarrow> 64 word \<times> rng" where
  "rng_next g = (g 0, \<lambda>k. g (Suc k))"

definition rf :: "rng \<Rightarrow> real \<times> rng" where
  "rf g = (let (w, g') = rng_next g in (real (unat w) / 2 ^ 64, g'))"

definition ri :: "nat \<Rightarrow> rng \<Rightarrow> nat \<times> rng" where
  "ri k g = (let (w, g') = rng_next g in (unat w mod k, g'))"

text \<open>C's \<^verbatim>\<open>fmod\<close>: the remainder has the sign of the dividend.\<close>

definition fmod :: "real \<Rightarrow> real \<Rightarrow> real" where
  "fmod u v = u - v * of_int (if u / v < 0 then \<lceil>u / v\<rceil> else \<lfloor>u / v\<rfloor>)"

section \<open>Simulated annealing\<close>

text \<open>
  The loop state of \<^verbatim>\<open>sa_v3\<close>. A tentative move either takes the \<^verbatim>\<open>continue\<close> path
  (\<open>Continue\<close>: the pose is put back, no acceptance test) or reaches the acceptance test
  (\<open>Tentative\<close>); both carry the current configuration and the generator.
\<close>

record sa_state =
  sa_best :: Cfg
  sa_cur :: Cfg
  sa_bs :: real
  sa_cs :: real
  sa_T :: real
  sa_noImp :: int
  sa_rng :: rng

datatype move = Continue Cfg rng | Tentative Cfg rng

text \<open>Move types 0 to 3: one polygon \<open>i\<close>, checked with \<^verbatim>\<open>hasOvl(i)\<close>.\<close>

definition move_single :: "nat \<Rightarrow> nat \<Rightarrow> real \<Rightarrow> real \<Rightarrow> real \<Rightarrow> Cfg \<Rightarrow> rng \<Rightarrow> move" where
  "move_single moveType c_n ms rs sc cur g0 =
     (let (i, g1) = ri c_n g0;
          ox = cfg_x cur i; oy = cfg_y cur i; oa = cfg_a cur i;
          (cx, cy) = centroid cur;
          (t, g2) =
            (if moveType = 0 then
               (let (u1, ga) = rf g1;
                    t1 = set_x i (cfg_x cur i + (u1 - 0.5) * 2 * ms * sc) cur;
                    (u2, gb) = rf ga
                in (set_y i (cfg_y t1 i + (u2 - 0.5) * 2 * ms * sc) t1, gb))
             else if moveType = 1 then
               (let dx = cx - cfg_x cur i; dy = cy - cfg_y cur i;
                    d = sqrt (dx * dx + dy * dy)
                in if d > 0.000001 then
                     (let (u, ga) = rf g1; st = u * ms * sc;
                          t1 = set_x i (cfg_x cur i + dx / d * st) cur
                      in (set_y i (cfg_y t1 i + dy / d * st) t1, ga))
                   else (cur, g1))
             else if moveType = 2 then
               (let (u, ga) = rf g1;
                    t1 = set_a i (cfg_a cur i + (u - 0.5) * 2 * rs * sc) cur
                in (set_a i (fmod (cfg_a t1 i + 360) 360) t1, ga))
             else
               (let (u1, ga) = rf g1;
                    t1 = set_x i (cfg_x cur i + (u1 - 0.5) * ms * sc) cur;
                    (u2, gb) = rf ga;
                    t2 = set_y i (cfg_y t1 i + (u2 - 0.5) * ms * sc) t1;
                    (u3, gc) = rf gb;
                    t3 = set_a i (cfg_a t2 i + (u3 - 0.5) * rs * sc) t2
                in (set_a i (fmod (cfg_a t3 i + 360) 360) t3, gc)));
          t' = upd i t
      in if hasOvl t' i
         then Continue (upd i (set_a i oa (set_y i oy (set_x i ox t')))) g2
         else Tentative t' g2)"

text \<open>
  Move type 4 draws \<open>j\<close> again while it equals \<open>i\<close>. Nothing bounds the number of draws, so
  the loop is a partial function: \<open>None\<close> is the run that never leaves it.
\<close>

partial_function (option) redraw :: "nat \<Rightarrow> nat \<Rightarrow> nat \<Rightarrow> rng \<Rightarrow> (nat \<times> rng) option" where
  "redraw c_n i j g =
     (if j = i then (case ri c_n g of (j', g') \<Rightarrow> redraw c_n i j' g') else Some (j, g))"

definition move_swap :: "nat \<Rightarrow> Cfg \<Rightarrow> rng \<Rightarrow> move option" where
  "move_swap c_n cur g0 =
     (let (i, g1) = ri c_n g0; (j0, g2) = ri c_n g1
      in case redraw c_n i j0 g2 of
           None \<Rightarrow> None
         | Some (j, g3) \<Rightarrow>
             (let oxi = cfg_x cur i; oyi = cfg_y cur i;
                  oxj = cfg_x cur j; oyj = cfg_y cur j;
                  t = upd j (upd i (set_y j oyi (set_x j oxi (set_y i oyj (set_x i oxj cur)))))
              in if hasOvlPair t i j
                 then Some (Continue
                        (upd j (upd i (set_y j oyj (set_x j oxj (set_y i oyi (set_x i oxi t)))))) g3)
                 else Some (Tentative t g3)))"

text \<open>Move type 5: towards the centre of the global bounding box.\<close>

definition move_bbox :: "nat \<Rightarrow> real \<Rightarrow> real \<Rightarrow> Cfg \<Rightarrow> rng \<Rightarrow> move" where
  "move_bbox c_n ms sc cur g0 =
     (let (i, g1) = ri c_n g0;
          ox = cfg_x cur i; oy = cfg_y cur i;
          (gx0, gy0, gx1, gy1) = getBBox cur;
          bcx = (gx0 + gx1) / 2; bcy = (gy0 + gy1) / 2;
          dx = bcx - cfg_x cur i; dy = bcy - cfg_y cur i;
          d = sqrt (dx * dx + dy * dy);
          (t, g2) =
            (if d > 0.000001 then
               (let (u, ga) = rf g1; st = u * ms * sc * 0.5;
                    t1 = set_x i (cfg_x cur i + dx / d * st) cur
                in (set_y i (cfg_y t1 i + dy / d * st) t1, ga))
             else (cur, g1));
          t' = upd i t
      in if hasOvl t' i
         then Continue (upd i (set_y i oy (set_x i ox t'))) g2
         else Tentative t' g2)"

text \<open>Move type 6: a corner polygon; with no corner polygon the step is skipped.\<close>

definition move_corner :: "real \<Rightarrow> real \<Rightarrow> real \<Rightarrow> Cfg \<Rightarrow> rng \<Rightarrow> move" where
  "move_corner ms rs sc cur g0 =
     (let corners = findCornerTrees cur
      in if corners \<noteq> [] then
           (let (k, g1) = ri (length corners) g0;
                idx = corners ! k;
                ox = cfg_x cur idx; oy = cfg_y cur idx; oa = cfg_a cur idx;
                (gx0, gy0, gx1, gy1) = getBBox cur;
                bcx = (gx0 + gx1) / 2; bcy = (gy0 + gy1) / 2;
                dx = bcx - cfg_x cur idx; dy = bcy - cfg_y cur idx;
                d = sqrt (dx * dx + dy * dy);
                (t, g2) =
                  (if d > 0.000001 then
                     (let (u1, ga) = rf g1; st = u1 * ms * sc * 0.3;
                          t1 = set_x idx (cfg_x cur idx + dx / d * st) cur;
                          t2 = set_y idx (cfg_y t1 idx + dy / d * st) t1;
                          (u2, gb) = rf ga;
                          t3 = set_a idx (cfg_a t2 idx + (u2 - 0.5) * rs * sc * 0.5) t2
                      in (set_a idx (fmod (cfg_a t3 idx + 360) 360) t3, gb))
                   else (cur, g1));
                t' = upd idx t
            in if hasOvl t' idx
               then Continue (upd idx (set_a idx oa (set_y idx oy (set_x idx ox t')))) g2
               else Tentative t' g2)
         else Continue cur g0)"

text \<open>
  The last branch (move type 7, and every type no earlier branch takes): polygons \<open>i\<close>
  and \<open>j = (i + 1) mod n\<close> are translated by the same vector. \<open>joint_tentative\<close> is the
  configuration after lines 272 to 274.
\<close>

definition joint_tentative :: "nat \<Rightarrow> nat \<Rightarrow> real \<Rightarrow> real \<Rightarrow> Cfg \<Rightarrow> Cfg" where
  "joint_tentative i j dx dy cur =
     (let t1 = set_x i (cfg_x cur i + dx) cur;
          t2 = set_y i (cfg_y t1 i + dy) t1;
          t3 = set_x j (cfg_x t2 j + dx) t2;
          t4 = set_y j (cfg_y t3 j + dy) t3
      in upd j (upd i t4))"

definition move_joint :: "nat \<Rightarrow> real \<Rightarrow> real \<Rightarrow> Cfg \<Rightarrow> rng \<Rightarrow> move" where
  "move_joint c_n ms sc cur g0 =
     (let (i, g1) = ri c_n g0;
          j = (i + 1) mod c_n;
          oxi = cfg_x cur i; oyi = cfg_y cur i;
          oxj = cfg_x cur j; oyj = cfg_y cur j;
          (u1, g2) = rf g1; dx = (u1 - 0.5) * ms * sc * 0.5;
          (u2, g3) = rf g2; dy = (u2 - 0.5) * ms * sc * 0.5;
          t = joint_tentative i j dx dy cur
      in if hasOvlPair t i j
         then Continue (upd j (upd i (set_y j oyj (set_x j oxj (set_y i oyi (set_x i oxi t)))))) g3
         else Tentative t g3)"

text \<open>The dispatch on \<^verbatim>\<open>moveType\<close>, in the order of the source's if-else chain.\<close>

definition sa_move :: "nat \<Rightarrow> nat \<Rightarrow> real \<Rightarrow> real \<Rightarrow> real \<Rightarrow> Cfg \<Rightarrow> rng \<Rightarrow> move option" where
  "sa_move moveType c_n ms rs sc cur g =
     (if moveType < 4 then Some (move_single moveType c_n ms rs sc cur g)
      else if moveType = 4 \<and> c_n > 1 then move_swap c_n cur g
      else if moveType = 5 then Some (move_bbox c_n ms sc cur g)
      else if moveType = 6 then Some (move_corner ms rs sc cur g)
      else Some (move_joint c_n ms sc cur g))"

text \<open>\<^verbatim>\<open>T *= alpha; if (T < Tm) T = Tm;\<close>\<close>

definition cool :: "real \<Rightarrow> real \<Rightarrow> real \<Rightarrow> real" where
  "cool alpha Tm T = (if T * alpha < Tm then Tm else T * alpha)"

text \<open>Lines 284 to 299: the acceptance test on a feasible tentative configuration.\<close>

definition sa_accept :: "real \<Rightarrow> sa_state \<Rightarrow> sa_state" where
  "sa_accept ns st =
     (if ns < sa_bs st
      then st\<lparr>sa_cs := ns, sa_bs := ns, sa_best := sa_cur st, sa_noImp := 0\<rparr>
      else st\<lparr>sa_cs := ns, sa_noImp := sa_noImp st + 1\<rparr>)"

definition sa_reject :: "sa_state \<Rightarrow> sa_state" where
  "sa_reject st = st\<lparr>sa_cur := sa_best st, sa_cs := sa_bs st, sa_noImp := sa_noImp st + 1\<rparr>"

definition metropolis :: "sa_state \<Rightarrow> sa_state" where
  "metropolis st =
     (let ns = side (sa_cur st); delta = ns - sa_cs st
      in if delta < 0 then sa_accept ns st
         else (let (u, g) = rf (sa_rng st)
               in if u < exp (- delta / sa_T st)
                  then sa_accept ns (st\<lparr>sa_rng := g\<rparr>)
                  else sa_reject (st\<lparr>sa_rng := g\<rparr>)))"

text \<open>Lines 300 to 305: reheating and the end-of-step cooling.\<close>

definition reheat_cool :: "real \<Rightarrow> real \<Rightarrow> real \<Rightarrow> sa_state \<Rightarrow> sa_state" where
  "reheat_cool T0 Tm alpha st =
     (let st1 = (if sa_noImp st > 600
                 then st\<lparr>sa_T := min (sa_T st * 3) (T0 * 0.7), sa_noImp := 0\<rparr> else st)
      in st1\<lparr>sa_T := cool alpha Tm (sa_T st1)\<rparr>)"

definition sa_step :: "nat \<Rightarrow> real \<Rightarrow> real \<Rightarrow> real \<Rightarrow> real \<Rightarrow> real \<Rightarrow> sa_state \<Rightarrow> sa_state option" where
  "sa_step c_n T0 Tm ms rs alpha st =
     (let (moveType, g1) = ri 8 (sa_rng st); sc = sa_T st / T0
      in case sa_move moveType c_n ms rs sc (sa_cur st) g1 of
           None \<Rightarrow> None
         | Some (Continue cur' g) \<Rightarrow>
             Some (st\<lparr>sa_cur := cur', sa_noImp := sa_noImp st + 1,
                       sa_T := cool alpha Tm (sa_T st), sa_rng := g\<rparr>)
         | Some (Tentative cur' g) \<Rightarrow>
             Some (reheat_cool T0 Tm alpha (metropolis (st\<lparr>sa_cur := cur', sa_rng := g\<rparr>))))"

fun sa_loop :: "nat \<Rightarrow> nat \<Rightarrow> real \<Rightarrow> real \<Rightarrow> real \<Rightarrow> real \<Rightarrow> real \<Rightarrow> sa_state \<Rightarrow> sa_state option" where
  "sa_loop 0 c_n T0 Tm ms rs alpha st = Some st"
| "sa_loop (Suc k) c_n T0 Tm ms rs alpha st =
     (case sa_step c_n T0 Tm ms rs alpha st of
        None \<Rightarrow> None
      | Some st' \<Rightarrow> sa_loop k c_n T0 Tm ms rs alpha st')"

definition sa_init :: "Cfg \<Rightarrow> real \<Rightarrow> rng \<Rightarrow> sa_state" where
  "sa_init c T0 g =
     \<lparr>sa_best = c, sa_cur = c, sa_bs = side c, sa_cs = side c, sa_T = T0, sa_noImp = 0, sa_rng = g\<rparr>"

definition sa_v3 ::
  "(64 word \<Rightarrow> rng) \<Rightarrow> Cfg \<Rightarrow> int \<Rightarrow> real \<Rightarrow> real \<Rightarrow> real \<Rightarrow> real \<Rightarrow> 64 word \<Rightarrow> Cfg option" where
  "sa_v3 mt c iter T0 Tm ms rs seed =
     (let alpha = (Tm / T0) powr (1 / real_of_int iter)
      in map_option sa_best
           (sa_loop (nat iter) (cfg_n c) T0 Tm ms rs alpha (sa_init c T0 (mt seed))))"

section \<open>Local search and fractional translation\<close>

text \<open>
  Both refinements keep the triple (\<open>best\<close>, \<open>bs\<close>, improved-flag) and try one change of
  one polygon at a time: the change is kept when the polygon is free of overlap and the
  side drops below \<open>bs\<close> by more than the tolerance, and undone otherwise.
\<close>

type_synonym ls_state = "Cfg \<times> real \<times> bool"

definition try_shift :: "real \<Rightarrow> nat \<Rightarrow> real \<Rightarrow> real \<Rightarrow> ls_state \<Rightarrow> ls_state" where
  "try_shift tol i sx sy = (\<lambda>(best, bs, imp).
     (let ox = cfg_x best i; oy = cfg_y best i;
          t1 = set_x i (cfg_x best i + sx) best;
          t2 = set_y i (cfg_y t1 i + sy) t1;
          t = upd i t2
      in if \<not> hasOvl t i then
           (let ns = side t
            in if ns < bs - tol then (t, ns, True)
               else (upd i (set_y i oy (set_x i ox t)), bs, imp))
         else (upd i (set_y i oy (set_x i ox t)), bs, imp)))"

definition try_rot :: "real \<Rightarrow> nat \<Rightarrow> real \<Rightarrow> ls_state \<Rightarrow> ls_state" where
  "try_rot tol i da = (\<lambda>(best, bs, imp).
     (let oa = cfg_a best i;
          t = upd i (set_a i (fmod (cfg_a best i + da + 360) 360) best)
      in if \<not> hasOvl t i then
           (let ns = side t
            in if ns < bs - tol then (t, ns, True)
               else (upd i (set_a i oa t), bs, imp))
         else (upd i (set_a i oa t), bs, imp)))"

definition ls_ps :: "real list" where
  "ls_ps = [0.02, 0.01, 0.005, 0.002, 0.001, 0.0005, 0.0002]"

definition ls_rs :: "real list" where
  "ls_rs = [15, 10, 5, 2, 1, 0.5, 0.25]"

definition ls_dx :: "int list" where
  "ls_dx = [1, -1, 0, 0, 1, 1, -1, -1]"

definition ls_dy :: "int list" where
  "ls_dy = [0, 0, 1, -1, 1, -1, 1, -1]"

definition ls_tol :: real where
  "ls_tol = 0.0000000001"

text \<open>The body of the loops over one polygon: the position phase, then the angle phase.\<close>

definition ls_poly :: "nat \<Rightarrow> ls_state \<Rightarrow> ls_state" where
  "ls_poly i s =
     (let s1 = fold (\<lambda>st. fold (\<lambda>d. try_shift ls_tol i (of_int (ls_dx ! d) * st)
                                                          (of_int (ls_dy ! d) * st)) [0..<8])
                    ls_ps s
      in fold (\<lambda>st. fold (\<lambda>da. try_rot ls_tol i da) [st, - st]) ls_rs s1)"

definition ls_pass :: "nat \<Rightarrow> Cfg \<times> real \<Rightarrow> ls_state" where
  "ls_pass c_n = (\<lambda>(best, bs).
     (let corners = findCornerTrees best;
          s1 = fold ls_poly corners (best, bs, False)
      in fold (\<lambda>i s. if i \<in> set corners then s else ls_poly i s) [0..<c_n] s1))"

fun ls_loop :: "nat \<Rightarrow> nat \<Rightarrow> Cfg \<times> real \<Rightarrow> Cfg \<times> real" where
  "ls_loop 0 c_n s = s"
| "ls_loop (Suc k) c_n s =
     (case ls_pass c_n s of (best, bs, imp) \<Rightarrow>
        if \<not> imp then (best, bs) else ls_loop k c_n (best, bs))"

definition ls_v3 :: "Cfg \<Rightarrow> int \<Rightarrow> Cfg" where
  "ls_v3 c iter = fst (ls_loop (nat iter) (cfg_n c) (c, side c))"

definition frac_steps :: "real list" where
  "frac_steps = [0.001, 0.0005, 0.0002, 0.0001, 0.00005, 0.00002, 0.00001]"

definition ft_dx :: "real list" where
  "ft_dx = [0, 0, 1, -1, 1, 1, -1, -1]"

definition ft_dy :: "real list" where
  "ft_dy = [1, -1, 0, 0, 1, -1, 1, -1]"

definition ft_tol :: real where
  "ft_tol = 0.000000000001"

definition ft_pass :: "nat \<Rightarrow> Cfg \<times> real \<Rightarrow> ls_state" where
  "ft_pass c_n = (\<lambda>(best, bs).
     fold (\<lambda>i. fold (\<lambda>step. fold (\<lambda>d. try_shift ft_tol i (ft_dx ! d * step) (ft_dy ! d * step))
                                   [0..<8])
                     frac_steps)
          [0..<c_n] (best, bs, False))"

fun ft_loop :: "nat \<Rightarrow> nat \<Rightarrow> Cfg \<times> real \<Rightarrow> Cfg \<times> real" where
  "ft_loop 0 c_n s = s"
| "ft_loop (Suc k) c_n s =
     (case ft_pass c_n s of (best, bs, improved) \<Rightarrow>
        if \<not> improved then (best, bs) else ft_loop k c_n (best, bs))"

definition fractional_translation :: "Cfg \<Rightarrow> int \<Rightarrow> Cfg" where
  "fractional_translation c max_iter = fst (ft_loop (nat max_iter) (cfg_n c) (c, side c))"

section \<open>Scaling, overlap resolution, compression, random initialisation\<close>

definition scale_cfg :: "Cfg \<Rightarrow> real \<Rightarrow> Cfg" where
  "scale_cfg c factor =
     fold (\<lambda>i c. upd i (set_y i (cfg_y c i * factor) (set_x i (cfg_x c i * factor) c)))
          [0..<cfg_n c] c"


definition push_pair :: "real \<Rightarrow> nat \<Rightarrow> nat \<Rightarrow> Cfg \<times> rng \<Rightarrow> Cfg \<times> rng" where
  "push_pair step i j = (\<lambda>(c, g).
     (let dx = cfg_x c i - cfg_x c j;
          dy = cfg_y c i - cfg_y c j;
          d = sqrt (dx * dx + dy * dy);
          (dx, dy, d, g') =
            (if d < 0.000001
             then (let (u, g1) = rf g; ang = u * 2 * PI in (cos ang, sin ang, 1, g1))
             else (dx, dy, d, g));
          ux = dx / d; uy = dy / d;
          c1 = set_x i (cfg_x c i + ux * step) c;
          c2 = set_y i (cfg_y c1 i + uy * step) c1;
          c3 = set_x j (cfg_x c2 j - ux * step) c2;
          c4 = set_y j (cfg_y c3 j - uy * step) c3
      in (upd j (upd i c4), g')))"

definition resolve_pair :: "real \<Rightarrow> nat \<Rightarrow> nat \<Rightarrow> Cfg \<times> rng \<times> bool \<Rightarrow> Cfg \<times> rng \<times> bool" where
  "resolve_pair step i j = (\<lambda>(c, g, any).
     if \<not> overlap (cfg_pl c i) (cfg_pl c j) then (c, g, any)
     else (case push_pair step i j (c, g) of (c', g') \<Rightarrow> (c', g', True)))"

definition resolve_pass :: "real \<Rightarrow> Cfg \<Rightarrow> rng \<Rightarrow> Cfg \<times> rng \<times> bool" where
  "resolve_pass step c g =
     fold (\<lambda>i s. fold (\<lambda>j. resolve_pair step i j) [i + 1..<cfg_n c] s) [0..<cfg_n c] (c, g, False)"

text \<open>The result pairs the returned flag with the configuration left in the reference argument.\<close>

fun resolve_loop :: "nat \<Rightarrow> real \<Rightarrow> Cfg \<Rightarrow> rng \<Rightarrow> bool \<times> Cfg" where
  "resolve_loop 0 step c g = (\<not> anyOvl c, c)"
| "resolve_loop (Suc k) step c g =
     (case resolve_pass step c g of (c', g', any) \<Rightarrow>
        if \<not> any then (True, c') else resolve_loop k step c' g')"

definition resolve_overlaps :: "(64 word \<Rightarrow> rng) \<Rightarrow> Cfg \<Rightarrow> int \<Rightarrow> real \<Rightarrow> 64 word \<Rightarrow> bool \<times> Cfg" where
  "resolve_overlaps mt c max_iter step seed = resolve_loop (nat max_iter) step c (mt seed)"

fun compress_loop ::
  "(64 word \<Rightarrow> rng) \<Rightarrow> real \<Rightarrow> int \<Rightarrow> real \<Rightarrow> 64 word \<Rightarrow> nat \<Rightarrow> int \<Rightarrow> Cfg \<Rightarrow> Cfg" where
  "compress_loop mt factor relax_iters relax_step seed 0 s best = best"
| "compress_loop mt factor relax_iters relax_step seed (Suc k) s best =
     (case resolve_overlaps mt (scale_cfg best factor) relax_iters relax_step
             (seed + word_of_int (s * 1337)) of
        (ok, candidate) \<Rightarrow>
          if \<not> ok then best
          else compress_loop mt factor relax_iters relax_step seed k (s + 1) candidate)"

definition compress_cfg ::
  "(64 word \<Rightarrow> rng) \<Rightarrow> Cfg \<Rightarrow> int \<Rightarrow> real \<Rightarrow> int \<Rightarrow> real \<Rightarrow> 64 word \<Rightarrow> Cfg" where
  "compress_cfg mt c steps factor relax_iters relax_step seed =
     (if steps \<le> 0 \<or> factor \<ge> 1 then c
      else compress_loop mt factor relax_iters relax_step seed (nat steps) 0 c)"

text \<open>
  \<^verbatim>\<open>random_init_cfg\<close>. A fresh \<^verbatim>\<open>Cfg\<close> has \<open>n = 0\<close> and zeroed poses; its polygon cache
  is not initialised by the source and is the parameter \<open>pl0\<close> here. The result is
  \<open>Some\<close> of the configuration written to \<^verbatim>\<open>out\<close> when the source returns true.
\<close>

fun place_try :: "nat \<Rightarrow> real \<Rightarrow> nat \<Rightarrow> Cfg \<Rightarrow> rng \<Rightarrow> bool \<times> Cfg \<times> rng" where
  "place_try 0 half i c g = (False, c, g)"
| "place_try (Suc t) half i c g =
     (let (u1, g1) = rf g; x = (u1 * 2 - 1) * half;
          (u2, g2) = rf g1; y = (u2 * 2 - 1) * half;
          (u3, g3) = rf g2; a = u3 * 360;
          c' = upd i (set_a i a (set_y i y (set_x i x c)));
          overlap_found = list_ex (\<lambda>j. overlap (cfg_pl c' i) (cfg_pl c' j)) [0..<i]
      in if \<not> overlap_found then (True, c', g3) else place_try t half i c' g3)"

fun place_all :: "nat \<Rightarrow> real \<Rightarrow> nat list \<Rightarrow> Cfg \<Rightarrow> rng \<Rightarrow> bool \<times> Cfg \<times> rng" where
  "place_all max_attempts half [] c g = (True, c, g)"
| "place_all max_attempts half (i # is) c g =
     (case place_try max_attempts half i c g of (placed, c', g') \<Rightarrow>
        if \<not> placed then (False, c', g') else place_all max_attempts half is c' g')"

fun init_attempts ::
  "nat \<Rightarrow> (nat \<Rightarrow> Poly) \<Rightarrow> nat \<Rightarrow> real \<Rightarrow> int \<Rightarrow> real \<Rightarrow> rng \<Rightarrow> Cfg option" where
  "init_attempts 0 pl0 n base_side max_attempts scale g = None"
| "init_attempts (Suc k) pl0 n base_side max_attempts scale g =
     (let half = (base_side * scale) * 0.5;
          c = \<lparr>cfg_n = n, cfg_x = (\<lambda>_. 0), cfg_y = (\<lambda>_. 0), cfg_a = (\<lambda>_. 0), cfg_pl = pl0\<rparr>
      in case place_all (nat max_attempts) half [0..<n] c g of (ok, c', g') \<Rightarrow>
           if ok then Some c'
           else init_attempts k pl0 n base_side max_attempts (scale * 1.08) g')"

definition random_init_cfg ::
  "(64 word \<Rightarrow> rng) \<Rightarrow> (nat \<Rightarrow> Poly) \<Rightarrow> nat \<Rightarrow> real \<Rightarrow> real \<Rightarrow> int \<Rightarrow> int \<Rightarrow> 64 word \<Rightarrow> Cfg option" where
  "random_init_cfg mt pl0 n base_side side_scale tries max_attempts seed =
     init_attempts (nat (max 1 tries)) pl0 n base_side max_attempts (max 1.01 side_scale) (mt seed)"

section \<open>CSV loader of the generation driver\<close>

text \<open>
  Splitting a line at its commas, stripping the \<^verbatim>\<open>s\<close> prefix and the conversions
  \<^verbatim>\<open>stoi\<close>, \<^verbatim>\<open>stod\<close>, \<^verbatim>\<open>stold\<close> are library calls on text. A data row is represented by what
  they deliver: the group number read from the first three characters of the id, the
  index read after the underscore, and the three numbers. A file is the list of its data
  rows in file order, or \<open>None\<close> when it cannot be opened.
\<close>

record row =
  row_n :: int
  row_idx :: int
  row_x :: real
  row_y :: real
  row_d :: real

text \<open>Lines 684 to 698: \<^verbatim>\<open>data[n].push_back(...)\<close> for every row.\<close>

definition collect :: "row list \<Rightarrow> (int \<rightharpoonup> (int \<times> real \<times> real \<times> real) list)" where
  "collect rows =
     fold (\<lambda>r data. data(row_n r \<mapsto>
                          (case data (row_n r) of None \<Rightarrow> [] | Some v \<Rightarrow> v)
                          @ [(row_idx r, row_x r, row_y r, row_d r)]))
          rows Map.empty"

text \<open>
  Lines 704 to 711: a tuple with \<open>i < n\<close> writes pose \<open>i\<close>. The guard does not keep
  \<open>i\<close> inside the arrays: a negative index, or one of \<open>MAX_N\<close> or more, is a write out of
  bounds, which is the error value here. So is the \<^verbatim>\<open>updAll\<close> of a group number above
  \<open>MAX_N\<close>.
\<close>

datatype load_error = OutOfBounds

definition set_pose :: "int \<Rightarrow> int \<times> real \<times> real \<times> real \<Rightarrow> load_error + Cfg \<Rightarrow> load_error + Cfg" where
  "set_pose k t s =
     (case s of
        Inl e \<Rightarrow> Inl e
      | Inr c \<Rightarrow>
          (case t of (i, vx, vy, vd) \<Rightarrow>
             if i < k then
               (if 0 \<le> i \<and> i < int MAX_N
                then Inr (set_a (nat i) vd (set_y (nat i) vy (set_x (nat i) vx c)))
                else Inl OutOfBounds)
             else Inr c))"

definition load_group ::
  "(nat \<Rightarrow> Poly) \<Rightarrow> int \<Rightarrow> (int \<times> real \<times> real \<times> real) list \<Rightarrow> load_error + Cfg" where
  "load_group pl0 k v =
     (case fold (set_pose k) v
             (Inr \<lparr>cfg_n = nat k, cfg_x = (\<lambda>_. 0), cfg_y = (\<lambda>_. 0), cfg_a = (\<lambda>_. 0),
                   cfg_pl = pl0\<rparr>) of
        Inl e \<Rightarrow> Inl e
      | Inr c \<Rightarrow> if k > int MAX_N then Inl OutOfBounds else Inr (updAll c))"

definition loadCSV :: "(nat \<Rightarrow> Poly) \<Rightarrow> row list option \<Rightarrow> (int \<rightharpoonup> load_error + Cfg)" where
  "loadCSV pl0 file =
     (case file of
        None \<Rightarrow> Map.empty
      | Some rows \<Rightarrow> (\<lambda>k. map_option (load_group pl0 k) (collect rows k)))"

section \<open>The single-group optimizer\<close>

text \<open>
  The second program has its own geometry, configuration type, generator and loader.
  Where its names coincide with names of the generation driver they carry the prefix
  \<open>sg_\<close>; the operations of \<^verbatim>\<open>FastRNG\<close> carry the prefix \<open>FastRNG_\<close>.
\<close>

record FastRNG =
  s0 :: "64 word"
  s1 :: "64 word"

definition FastRNG_init :: "64 word \<Rightarrow> FastRNG" where
  "FastRNG_init seed =
     \<lparr>s0 = seed XOR 0x853c49e6748fea9b,
      s1 = (seed * 0x9e3779b97f4a7c15) XOR 0xc4ceb9fe1a85ec53\<rparr>"

definition rotl :: "64 word \<Rightarrow> nat \<Rightarrow> 64 word" where
  "rotl w k = (push_bit k w) OR (drop_bit (64 - k) w)"

definition FastRNG_next :: "FastRNG \<Rightarrow> 64 word \<times> FastRNG" where
  "FastRNG_next g =
     (let a = s0 g; b = s1 g; r = a + b; b' = b XOR a
      in (r, \<lparr>s0 = rotl a 24 XOR b' XOR push_bit 16 b', s1 = rotl b' 37\<rparr>))"

definition FastRNG_rf :: "FastRNG \<Rightarrow> real \<times> FastRNG" where
  "FastRNG_rf g = (let (w, g') = FastRNG_next g in (real (unat (drop_bit 11 w)) / 2 ^ 53, g'))"

definition FastRNG_rf2 :: "FastRNG \<Rightarrow> real \<times> FastRNG" where
  "FastRNG_rf2 g = (let (u, g') = FastRNG_rf g in (u * 2 - 1, g'))"

definition FastRNG_ri :: "nat \<Rightarrow> FastRNG \<Rightarrow> nat \<times> FastRNG" where
  "FastRNG_ri k g = (let (w, g') = FastRNG_next g in (unat w mod k, g'))"

record sg_Poly =
  sg_px :: "real list"
  sg_py :: "real list"
  sg_x0 :: real
  sg_y0 :: real
  sg_x1 :: real
  sg_y1 :: real

definition sg_getPoly :: "real \<Rightarrow> real \<Rightarrow> real \<Rightarrow> sg_Poly" where
  "sg_getPoly cx cy deg =
     (let rad = deg * (PI / 180); s = sin rad; c = cos rad;
          xs = map (\<lambda>i. TX ! i * c - TY ! i * s + cx) [0..<NV];
          ys = map (\<lambda>i. TX ! i * s + TY ! i * c + cy) [0..<NV];
          (minx, miny, maxx, maxy) =
            fold (\<lambda>i (minx, miny, maxx, maxy).
                    (if xs ! i < minx then xs ! i else minx,
                     if ys ! i < miny then ys ! i else miny,
                     if xs ! i > maxx then xs ! i else maxx,
                     if ys ! i > maxy then ys ! i else maxy))
                 [0..<NV] (1000000000, 1000000000, - 1000000000, - 1000000000)
      in \<lparr>sg_px = xs, sg_py = ys, sg_x0 = minx, sg_y0 = miny, sg_x1 = maxx, sg_y1 = maxy\<rparr>)"

definition sg_pip :: "real \<Rightarrow> real \<Rightarrow> sg_Poly \<Rightarrow> bool" where
  "sg_pip x y q =
     fst (fold (\<lambda>i (inside, j).
                  (if (sg_py q ! i > y) \<noteq> (sg_py q ! j > y) \<and>
                      x < (sg_px q ! j - sg_px q ! i) * (y - sg_py q ! i)
                            / (sg_py q ! j - sg_py q ! i) + sg_px q ! i
                   then \<not> inside else inside, i))
               [0..<NV] (False, NV - 1))"

definition cross :: "real \<Rightarrow> real \<Rightarrow> real \<Rightarrow> real \<Rightarrow> real \<Rightarrow> real \<Rightarrow> real" where
  "cross ax ay bx by cx cy = (bx - ax) * (cy - ay) - (by - ay) * (cx - ax)"

definition sg_segInt ::
  "real \<Rightarrow> real \<Rightarrow> real \<Rightarrow> real \<Rightarrow> real \<Rightarrow> real \<Rightarrow> real \<Rightarrow> real \<Rightarrow> bool" where
  "sg_segInt ax ay bx by cx cy dx dy =
     (let d1 = cross cx cy dx dy ax ay;
          d2 = cross cx cy dx dy bx by;
          d3 = cross ax ay bx by cx cy;
          d4 = cross ax ay bx by dx dy
      in if ((d1 > 0 \<and> d2 < 0) \<or> (d1 < 0 \<and> d2 > 0)) \<and>
            ((d3 > 0 \<and> d4 < 0) \<or> (d3 < 0 \<and> d4 > 0)) then True else False)"

definition polyIntersect :: "sg_Poly \<Rightarrow> sg_Poly \<Rightarrow> bool" where
  "polyIntersect a b =
     (if sg_x1 a < sg_x0 b \<or> sg_x1 b < sg_x0 a \<or> sg_y1 a < sg_y0 b \<or> sg_y1 b < sg_y0 a
      then False
      else if list_ex (\<lambda>i. let ni = (i + 1) mod NV
                            in list_ex (\<lambda>j. let nj = (j + 1) mod NV
                                            in sg_segInt (sg_px a ! i) (sg_py a ! i)
                                                         (sg_px a ! ni) (sg_py a ! ni)
                                                         (sg_px b ! j) (sg_py b ! j)
                                                         (sg_px b ! nj) (sg_py b ! nj))
                                       [0..<NV])
                      [0..<NV] then True
      else if sg_pip (sg_px a ! 0) (sg_py a ! 0) b \<or> sg_pip (sg_px b ! 0) (sg_py b ! 0) a
      then True else False)"

record Tree =
  tree_x :: real
  tree_y :: real
  tree_deg :: real

text \<open>
  \<^verbatim>\<open>Cfg\<close> of the single-group optimizer holds vectors. Reads and writes of the source are
  in range when both vectors have \<open>sg_n\<close> elements, which the constructor \<^verbatim>\<open>Cfg(int n)\<close>
  establishes (\<open>sg_Cfg_new\<close>, elements zeroed).
\<close>

record sg_Cfg =
  sg_n :: nat
  sg_t :: "Tree list"
  sg_p :: "sg_Poly list"

definition sg_Cfg_new :: "nat \<Rightarrow> sg_Cfg" where
  "sg_Cfg_new k =
     \<lparr>sg_n = k, sg_t = replicate k \<lparr>tree_x = 0, tree_y = 0, tree_deg = 0\<rparr>,
      sg_p = replicate k \<lparr>sg_px = replicate NV 0, sg_py = replicate NV 0,
                           sg_x0 = 0, sg_y0 = 0, sg_x1 = 0, sg_y1 = 0\<rparr>\<rparr>"

definition sg_upd :: "nat \<Rightarrow> sg_Cfg \<Rightarrow> sg_Cfg" where
  "sg_upd i c =
     c\<lparr>sg_p := (sg_p c)[i := sg_getPoly (tree_x (sg_t c ! i)) (tree_y (sg_t c ! i))
                                        (tree_deg (sg_t c ! i))]\<rparr>"

definition sg_updAll :: "sg_Cfg \<Rightarrow> sg_Cfg" where
  "sg_updAll c = fold sg_upd [0..<sg_n c] c"

definition sg_anyOvl :: "sg_Cfg \<Rightarrow> bool" where
  "sg_anyOvl c =
     list_ex (\<lambda>i. list_ex (\<lambda>j. polyIntersect (sg_p c ! i) (sg_p c ! j)) [i + 1..<sg_n c])
             [0..<sg_n c]"

definition sg_score :: "sg_Cfg \<Rightarrow> real" where
  "sg_score c =
     (let (minx, miny, maxx, maxy) =
            fold (\<lambda>i (minx, miny, maxx, maxy).
                    (min minx (sg_x0 (sg_p c ! i)), min miny (sg_y0 (sg_p c ! i)),
                     max maxx (sg_x1 (sg_p c ! i)), max maxy (sg_y1 (sg_p c ! i))))
                 [0..<sg_n c] (1000000000, 1000000000, - 1000000000, - 1000000000);
          s = max (maxx - minx) (maxy - miny)
      in (s * s) / real (sg_n c))"

definition copyCfg :: "sg_Cfg \<Rightarrow> sg_Cfg" where
  "copyCfg c = (sg_Cfg_new (sg_n c))\<lparr>sg_t := sg_t c, sg_p := sg_p c\<rparr>"

definition clamp :: "real \<Rightarrow> real \<Rightarrow> real \<Rightarrow> real" where
  "clamp v lo hi = max lo (min hi v)"

definition sg_perturb :: "sg_Cfg \<Rightarrow> FastRNG \<Rightarrow> real \<Rightarrow> real \<Rightarrow> sg_Cfg \<times> FastRNG" where
  "sg_perturb c g0 move_scale ang_scale =
     (let (i, g1) = FastRNG_ri (sg_n c) g0;
          (u1, g2) = FastRNG_rf2 g1; nx = tree_x (sg_t c ! i) + u1 * move_scale;
          (u2, g3) = FastRNG_rf2 g2; ny = tree_y (sg_t c ! i) + u2 * move_scale;
          (u3, g4) = FastRNG_rf2 g3;
          nd = fmod (tree_deg (sg_t c ! i) + u3 * ang_scale + 360) 360;
          c' = c\<lparr>sg_t := (sg_t c)[i := \<lparr>tree_x = clamp nx (- 100) 100,
                                          tree_y = clamp ny (- 100) 100, tree_deg = nd\<rparr>]\<rparr>
      in (sg_upd i c', g4))"

text \<open>
  The loop of \<^verbatim>\<open>optimizeOne\<close>, with the number of iterations left, the counter \<open>i\<close>, and the
  state (\<open>cur\<close>, \<open>best\<close>, \<open>bestScore\<close>, generator).
\<close>

fun opt_loop ::
  "nat \<Rightarrow> int \<Rightarrow> int \<Rightarrow> sg_Cfg \<times> sg_Cfg \<times> real \<times> FastRNG \<Rightarrow> sg_Cfg \<times> sg_Cfg \<times> real \<times> FastRNG" where
  "opt_loop 0 i iters s = s"
| "opt_loop (Suc k) i iters (cur, best, bestScore, g) =
     (let cand = copyCfg cur;
          t = real_of_int i / real_of_int iters;
          move = 0.08 * (1 - t * 0.85);
          ang = 20 * (1 - t * 0.85);
          (cand', g') = sg_perturb cand g move ang
      in if sg_anyOvl cand' then opt_loop k (i + 1) iters (cur, best, bestScore, g')
         else (let sc = sg_score cand'
               in if sc < bestScore
                  then opt_loop k (i + 1) iters (cand', copyCfg cand', sc, g')
                  else opt_loop k (i + 1) iters (cand', best, bestScore, g')))"

definition optimizeOne :: "sg_Cfg \<Rightarrow> int \<Rightarrow> 64 word \<Rightarrow> sg_Cfg" where
  "optimizeOne base iters seed =
     (let g = FastRNG_init seed;
          cur = sg_updAll (copyCfg base);
          best = copyCfg cur;
          bestScore = sg_score cur
      in case opt_loop (nat iters) 0 iters (cur, best, bestScore, g) of
           (cur', best', bestScore', g') \<Rightarrow> best')"

text \<open>\<^verbatim>\<open>std::min_element\<close>: the position of the first least element.\<close>

definition min_element :: "real list \<Rightarrow> nat" where
  "min_element xs = fold (\<lambda>i b. if xs ! i < xs ! b then i else b) [1..<length xs] 0"

text \<open>
  The restarts of \<^verbatim>\<open>optimizeParallel\<close> do not share state; the parallel loop is the map
  over the restart indices.
\<close>

definition optimizeParallel :: "sg_Cfg \<Rightarrow> int \<Rightarrow> int \<Rightarrow> sg_Cfg" where
  "optimizeParallel base iters restarts =
     (let bests = map (\<lambda>r. optimizeOne base iters (1234 + word_of_nat r * 7777))
                      [0..<nat restarts];
          scores = map sg_score bests;
          bestIdx = min_element scores
      in bests ! bestIdx)"

text \<open>
  The loader of the single-group optimizer: a group gets as many trees as it has rows,
  and the rows of a group fill its trees in file order. The index in the id is not read.
\<close>

definition sg_count :: "row list \<Rightarrow> (int \<rightharpoonup> nat)" where
  "sg_count rows =
     fold (\<lambda>r cnt. cnt(row_n r \<mapsto> (case cnt (row_n r) of None \<Rightarrow> 0 | Some k \<Rightarrow> k) + 1))
          rows Map.empty"

definition sg_fill :: "row list \<Rightarrow> (int \<rightharpoonup> sg_Cfg) \<Rightarrow> (int \<rightharpoonup> sg_Cfg)" where
  "sg_fill rows res0 =
     fst (fold (\<lambda>r (res, idx).
                  (let g = row_n r;
                       i = (case idx g of None \<Rightarrow> 0 | Some k \<Rightarrow> k);
                       c = (case res g of None \<Rightarrow> sg_Cfg_new 0 | Some c \<Rightarrow> c)
                   in (res(g \<mapsto> c\<lparr>sg_t := (sg_t c)[i := \<lparr>tree_x = row_x r, tree_y = row_y r,
                                                          tree_deg = row_d r\<rparr>]\<rparr>),
                       idx(g \<mapsto> i + 1))))
               rows (res0, Map.empty))"

definition sg_loadCSV :: "row list \<Rightarrow> (int \<rightharpoonup> sg_Cfg)" where
  "sg_loadCSV rows =
     (let cnt = sg_count rows;
          res0 = (\<lambda>g. map_option sg_Cfg_new (cnt g));
          res = sg_fill rows res0
      in (\<lambda>g. map_option sg_updAll (res g)))"

text \<open>\<^verbatim>\<open>saveCSV\<close>: the rows written, groups 1 to \<open>MAX_N\<close> ascending, trees ascending.\<close>

definition sg_saveCSV :: "(int \<rightharpoonup> sg_Cfg) \<Rightarrow> row list" where
  "sg_saveCSV cfg =
     concat (map (\<lambda>k. case cfg (int k) of
                         None \<Rightarrow> []
                       | Some c \<Rightarrow> map (\<lambda>i. \<lparr>row_n = int k, row_idx = int i,
                                               row_x = tree_x (sg_t c ! i),
                                               row_y = tree_y (sg_t c ! i),
                                               row_d = tree_deg (sg_t c ! i)\<rparr>) [0..<sg_n c])
                 [1..<MAX_N + 1])"

text \<open>
  \<^verbatim>\<open>main\<close> of the single-group optimizer, from the parsed inputs: the value of
  \<^verbatim>\<open>GROUP_NUMBER\<close> (if set), the data rows of the input file, and the options \<^verbatim>\<open>-n\<close> and
  \<^verbatim>\<open>-r\<close>. The result gives the exit code, the rows written to the output file (if it is
  written) and the closing report.
\<close>

datatype report = EnvMissing | Silent | Improved | NoImprovement

record run_result =
  exit_code :: int
  written :: "row list option"
  reported :: report

definition trunc_int :: "real \<Rightarrow> int" where
  "trunc_int v = (if v < 0 then \<lceil>v\<rceil> else \<lfloor>v\<rfloor>)"

definition sg_params :: "int \<Rightarrow> int \<Rightarrow> int \<Rightarrow> int \<times> int" where
  "sg_params targetN iters restarts =
     (if targetN \<le> 10 then (trunc_int (real_of_int iters * 3), restarts * 3)
      else if targetN \<le> 30
        then (trunc_int (real_of_int iters * 2), trunc_int (real_of_int restarts * 2))
      else if targetN > 100
        then (trunc_int (real_of_int iters * 0.8), max 8 (trunc_int (real_of_int restarts * 0.8)))
      else (iters, restarts))"

definition sg_main :: "int option \<Rightarrow> row list \<Rightarrow> int \<Rightarrow> int \<Rightarrow> run_result" where
  "sg_main groupEnv rows iters restarts =
     (case groupEnv of
        None \<Rightarrow> \<lparr>exit_code = 1, written = None, reported = EnvMissing\<rparr>
      | Some targetN \<Rightarrow>
          (let cfg = sg_loadCSV rows
           in case cfg targetN of
                None \<Rightarrow> \<lparr>exit_code = 1, written = None, reported = Silent\<rparr>
              | Some c \<Rightarrow>
                  (let os = sg_score c;
                       (it, r) = sg_params targetN iters restarts;
                       opt = optimizeParallel c it (max 8 r);
                       ns = sg_score opt
                   in if \<not> sg_anyOvl opt \<and> ns < os - 0.000000000001
                      then \<lparr>exit_code = 0, written = Some (sg_saveCSV (cfg(targetN \<mapsto> opt))),
                            reported = Improved\<rparr>
                      else \<lparr>exit_code = 0, written = None, reported = NoImprovement\<rparr>)))"

section \<open>Example inputs\<close>

text \<open>
  Small inputs on which the theorems below are instantiated: a generator that only
  produces zeros, one tree at the origin, two trees on top of each other, and two trees far
  apart.
\<close>

definition mt_zero :: "64 word \<Rightarrow> rng" where
  "mt_zero seed = (\<lambda>k. 0)"

definition cfg_of :: "(real \<times> real \<times> real) list \<Rightarrow> Cfg" where
  "cfg_of poses =
     updAll \<lparr>cfg_n = length poses,
             cfg_x = (\<lambda>i. if i < length poses then fst (poses ! i) else 0),
             cfg_y = (\<lambda>i. if i < length poses then fst (snd (poses ! i)) else 0),
             cfg_a = (\<lambda>i. if i < length poses then snd (snd (poses ! i)) else 0),
             cfg_pl = (\<lambda>i. getPoly 0 0 0)\<rparr>"

definition cfg_single :: Cfg where
  "cfg_single = cfg_of [(0, 0, 0)]"

definition cfg_twin :: Cfg where
  "cfg_twin = cfg_of [(0, 0, 0), (0, 0, 0)]"

definition cfg_apart :: Cfg where
  "cfg_apart = cfg_of [(0, 0, 0), (10, 10, 0)]"

definition rng_fifth :: rng where
  "rng_fifth = (\<lambda>k. if k = 4 then 0xFFFFFFFFFFFFFFFF else 0)"

definition rows_single :: "row list" where
  "rows_single = [\<lparr>row_n = 1, row_idx = 0, row_x = 0, row_y = 0, row_d = 0\<rparr>]"


definition rows_pair :: "row list" where
  "rows_pair = [\<lparr>row_n = 2, row_idx = 0, row_x = 1, row_y = 0, row_d = 0\<rparr>,
                \<lparr>row_n = 2, row_idx = 1, row_x = 5, row_y = 0, row_d = 0\<rparr>]"

definition rows_dup :: "row list" where
  "rows_dup = [\<lparr>row_n = 1, row_idx = 0, row_x = 1, row_y = 0, row_d = 0\<rparr>,
               \<lparr>row_n = 1, row_idx = 0, row_x = 5, row_y = 0, row_d = 0\<rparr>]"

definition rows_high :: "row list" where
  "rows_high = [\<lparr>row_n = 1, row_idx = 7, row_x = 3, row_y = 0, row_d = 0\<rparr>]"

definition rows_short :: "row list" where
  "rows_short = [\<lparr>row_n = 3, row_idx = 1, row_x = 4, row_y = 0, row_d = 0\<rparr>]"

text \<open>
  A configuration whose polygon cache was never built: one pose at the origin, the cache
  still all zero.
\<close>

definition poly_zero :: Poly where
  "poly_zero = \<lparr>p = replicate NV \<lparr>px = 0, py = 0\<rparr>, x0 = 0, y0 = 0, x1 = 0, y1 = 0\<rparr>"

definition cfg_stale :: Cfg where
  "cfg_stale = \<lparr>cfg_n = 1, cfg_x = (\<lambda>_. 0), cfg_y = (\<lambda>_. 0), cfg_a = (\<lambda>_. 0),
                 cfg_pl = (\<lambda>_. poly_zero)\<rparr>"

section \<open>Predicates of the statements\<close>

text \<open>
  A tree lies in the clamping box of the single-group optimizer when both coordinates
  are between -100 and 100; \<open>touched_ok base c\<close> says that \<open>c\<close> has the trees of \<open>base\<close>
  except for trees in the box.
\<close>

definition in_box :: "Tree \<Rightarrow> bool" where
  "in_box t = (- 100 \<le> tree_x t \<and> tree_x t \<le> 100 \<and> - 100 \<le> tree_y t \<and> tree_y t \<le> 100)"

definition touched_ok :: "sg_Cfg \<Rightarrow> sg_Cfg \<Rightarrow> bool" where
  "touched_ok base c =
     (sg_n c = sg_n base \<and> length (sg_t c) = sg_n base \<and>
      (\<forall>k. k < sg_n base \<longrightarrow> sg_t c ! k = sg_t base ! k \<or> in_box (sg_t c ! k)))"

definition sg_single :: sg_Cfg where
  "sg_single = sg_updAll (sg_Cfg_new 1)"

text \<open>
  For the loaders: the id of a row as the pair of its group number and index, the
  tuple the generation driver stores for a row, the rows of one group in file order, and
  the tree the single-group loader makes of a row.
\<close>

definition row_key :: "row \<Rightarrow> int \<times> int" where
  "row_key r = (row_n r, row_idx r)"

definition row_tuple :: "row \<Rightarrow> int \<times> real \<times> real \<times> real" where
  "row_tuple r = (row_idx r, row_x r, row_y r, row_d r)"

definition group_rows :: "int \<Rightarrow> row list \<Rightarrow> row list" where
  "group_rows k rows = filter (\<lambda>r. row_n r = k) rows"

definition tree_of_row :: "row \<Rightarrow> Tree" where
  "tree_of_row r = \<lparr>tree_x = row_x r, tree_y = row_y r, tree_deg = row_d r\<rparr>"

section \<open>Invariants\<close>

text \<open>
  A configuration is consistent when the cached polygon of every pose \<open>i < n\<close> is the
  polygon built from that pose. Every configuration the programs build is consistent:
  the loader ends with \<^verbatim>\<open>updAll\<close>, and every write to a pose is followed by \<^verbatim>\<open>upd\<close>.
  \<open>good k c\<close>: \<open>k\<close> polygons, consistent, separated.
\<close>

definition consistent :: "Cfg \<Rightarrow> bool" where
  "consistent c =
     (\<forall>i. i < cfg_n c \<longrightarrow> cfg_pl c i = getPoly (cfg_x c i) (cfg_y c i) (cfg_a c i))"

text \<open>
  \<open>separated c\<close>: no two polygons of \<open>c\<close> overlap in both argument orders. The operators
  test the moved polygon against the others, \<^verbatim>\<open>overlap(pl[i], pl[j])\<close> with \<open>i\<close> the moved
  one, while \<^verbatim>\<open>anyOvl\<close> tests \<^verbatim>\<open>overlap(pl[i], pl[j])\<close> for \<open>i < j\<close>.
\<close>

definition separated :: "Cfg \<Rightarrow> bool" where
  "separated c =
     list_all (\<lambda>i. list_all (\<lambda>j. \<not> (overlap (cfg_pl c i) (cfg_pl c j) \<and>
                                      overlap (cfg_pl c j) (cfg_pl c i)))
                            [i + 1..<cfg_n c]) [0..<cfg_n c]"

definition good :: "nat \<Rightarrow> Cfg \<Rightarrow> bool" where
  "good k c = (cfg_n c = k \<and> consistent c \<and> separated c)"

text \<open>The outcome of a move from a good configuration: the same configuration back, or a good one.\<close>

definition move_ok :: "nat \<Rightarrow> Cfg \<Rightarrow> move \<Rightarrow> bool" where
  "move_ok k cur m = (case m of Continue c g \<Rightarrow> c = cur | Tentative t g \<Rightarrow> good k t)"

definition sa_inv :: "nat \<Rightarrow> sa_state \<Rightarrow> bool" where
  "sa_inv k st = (good k (sa_cur st) \<and> good k (sa_best st))"

text \<open>
  Relations between the states before and after a refinement step: the tracked side
  does not go up (\<open>bs_le\<close>); from a consistent configuration with \<open>k\<close> polygons the step
  leads to one, keeps the tracked side equal to the side, and keeps feasibility
  (\<open>ls_keeps\<close>).
\<close>

definition bs_le :: "ls_state \<Rightarrow> ls_state \<Rightarrow> bool" where
  "bs_le s s' = (fst (snd s') \<le> fst (snd s))"

definition ls_keeps :: "nat \<Rightarrow> ls_state \<Rightarrow> ls_state \<Rightarrow> bool" where
  "ls_keeps k s s' =
     (cfg_n (fst s) = k \<and> consistent (fst s) \<longrightarrow>
        cfg_n (fst s') = k \<and> consistent (fst s') \<and>
        (side (fst s) = fst (snd s) \<longrightarrow> side (fst s') = fst (snd s')) \<and>
        (separated (fst s) \<longrightarrow> separated (fst s')))"

section \<open>Verification\<close>

subsection \<open>The overlap predicate\<close>




lemma bbox_fold_p:
  "p (fold (\<lambda>i q. q\<lparr>x0 := f1 i q, x1 := f2 i q, y0 := f3 i q, y1 := f4 i q\<rparr>) xs q0) = p q0"
  by (induction xs arbitrary: q0) auto

lemma bbox_p [simp]: "p (bbox ps) = ps"
  unfolding bbox_def by (simp add: bbox_fold_p)

lemma bbox_fold_le:
  "x0 q0 \<le> x1 q0 \<Longrightarrow> y0 q0 \<le> y1 q0 \<Longrightarrow>
   x0 (fold (\<lambda>i q. q\<lparr>x0 := min (x0 q) (f i), x1 := max (x1 q) (f i),
                     y0 := min (y0 q) (g i), y1 := max (y1 q) (g i)\<rparr>) xs q0)
   \<le> x1 (fold (\<lambda>i q. q\<lparr>x0 := min (x0 q) (f i), x1 := max (x1 q) (f i),
                     y0 := min (y0 q) (g i), y1 := max (y1 q) (g i)\<rparr>) xs q0) \<and>
   y0 (fold (\<lambda>i q. q\<lparr>x0 := min (x0 q) (f i), x1 := max (x1 q) (f i),
                     y0 := min (y0 q) (g i), y1 := max (y1 q) (g i)\<rparr>) xs q0)
   \<le> y1 (fold (\<lambda>i q. q\<lparr>x0 := min (x0 q) (f i), x1 := max (x1 q) (f i),
                     y0 := min (y0 q) (g i), y1 := max (y1 q) (g i)\<rparr>) xs q0)"
proof (induction xs arbitrary: q0)
  case Nil
  then show ?case by simp
next
  case (Cons i xs)
  show ?case
    unfolding fold_simps
    by (rule Cons.IH) (use Cons.prems in \<open>auto simp: min_def max_def\<close>)
qed

lemma bbox_le: "x0 (bbox ps) \<le> x1 (bbox ps) \<and> y0 (bbox ps) \<le> y1 (bbox ps)"
  unfolding bbox_def by (rule bbox_fold_le) auto

lemma getPoly_p:
  "p (getPoly cx cy deg) =
     map (\<lambda>i. \<lparr>px = TX ! i * cos (deg * PI / 180) - TY ! i * sin (deg * PI / 180) + cx,
               py = TX ! i * sin (deg * PI / 180) + TY ! i * cos (deg * PI / 180) + cy\<rparr>) [0..<NV]"
  unfolding getPoly_def Let_def by simp

lemma getPoly_le:
  "x0 (getPoly cx cy deg) \<le> x1 (getPoly cx cy deg) \<and>
   y0 (getPoly cx cy deg) \<le> y1 (getPoly cx cy deg)"
  unfolding getPoly_def Let_def by (rule bbox_le)

text \<open>
  The vertices 1, 2, 3 of the template make a left turn, and a rotation keeps it. The
  edge pair (1,2), (2,3) therefore passes the source's crossing test.
\<close>

lemma left_turn:
  fixes c s :: real
  assumes "c * c + s * s = 1"
  shows "segInt \<lparr>px = 0.125 * c - 0.5 * s + cx, py = 0.125 * s + 0.5 * c + cy\<rparr>
                \<lparr>px = 0.0625 * c - 0.5 * s + cx, py = 0.0625 * s + 0.5 * c + cy\<rparr>
                \<lparr>px = 0.0625 * c - 0.5 * s + cx, py = 0.0625 * s + 0.5 * c + cy\<rparr>
                \<lparr>px = 0.2 * c - 0.25 * s + cx, py = 0.2 * s + 0.25 * c + cy\<rparr>"
proof -
  have "(0.015625::real) * (c * c + s * s) > 0" using assms by simp
  then show ?thesis
    unfolding segInt_def ccw_def by (simp add: algebra_simps)
qed

lemma overlap_self: "overlap (getPoly cx cy deg) (getPoly cx cy deg)"
proof -
  let ?A = "getPoly cx cy deg"
  let ?c = "cos (deg * PI / 180)" and ?s = "sin (deg * PI / 180)"
  have cs: "?c * ?c + ?s * ?s = 1"
    using sin_cos_squared_add3[of "deg * PI / 180"] by (simp add: add.commute)
  have seg: "segInt (p ?A ! 1) (p ?A ! 2) (p ?A ! 2) (p ?A ! 3)"
    using left_turn[OF cs, of cx cy] by (simp add: getPoly_p NV_def TX_def TY_def)
  have "(1::nat) \<in> set [0..<NV]" "(2::nat) \<in> set [0..<NV]"
    by (simp_all add: NV_def)
  moreover have "segInt (p ?A ! 1) (p ?A ! ((1 + 1) mod NV)) (p ?A ! 2) (p ?A ! ((2 + 1) mod NV))"
    using seg by (simp add: NV_def numeral_2_eq_2)
  ultimately have "list_ex (\<lambda>i. list_ex (\<lambda>j. segInt (p ?A ! i) (p ?A ! ((i + 1) mod NV))
                                               (p ?A ! j) (p ?A ! ((j + 1) mod NV)))
                                  [0..<NV]) [0..<NV]"
    unfolding list_ex_iff by blast
  then show ?thesis
    unfolding overlap_def using getPoly_le[of cx cy deg] by auto
qed



subsection \<open>Compression\<close>

text \<open>
  Claim C5. With \<open>steps \<le> 0\<close> or \<open>factor \<ge> 1\<close>, \<^verbatim>\<open>compress_cfg\<close> returns its argument
  unchanged.
\<close>

theorem compress_cfg_noop:
  "steps \<le> 0 \<or> factor \<ge> 1 \<Longrightarrow>
   compress_cfg mt c steps factor relax_iters relax_step seed = c"
  by (simp add: compress_cfg_def)

theorem compress_cfg_noop_witness:
  "compress_cfg mt_zero cfg_twin 0 0.5 60 0.02 7 = cfg_twin \<and>
   compress_cfg mt_zero cfg_twin 5 1.0 60 0.02 7 = cfg_twin"
  using compress_cfg_noop[of 0 "0.5" mt_zero cfg_twin 60 "0.02" 7]
        compress_cfg_noop[of 5 "1.0" mt_zero cfg_twin 60 "0.02" 7]
  by simp



subsection \<open>Field lemmas and evaluation of the examples\<close>

lemma getPoly_deg0_box:
  "x0 (getPoly cx cy 0) = cx - 0.35 \<and> x1 (getPoly cx cy 0) = cx + 0.35 \<and>
   y0 (getPoly cx cy 0) = cy - 0.2 \<and> y1 (getPoly cx cy 0) = cy + 0.8"
  unfolding getPoly_def bbox_def NV_def TX_def TY_def Let_def
  by (simp add: upt_rec)

lemma cfg_upd_simps [simp]:
  "cfg_n (upd i c) = cfg_n c" "cfg_x (upd i c) = cfg_x c" "cfg_y (upd i c) = cfg_y c"
  "cfg_a (upd i c) = cfg_a c"
  "cfg_pl (upd i c) = (cfg_pl c)(i := getPoly (cfg_x c i) (cfg_y c i) (cfg_a c i))"
  by (simp_all add: upd_def)

lemma cfg_set_simps [simp]:
  "cfg_n (set_x i v c) = cfg_n c" "cfg_x (set_x i v c) = (cfg_x c)(i := v)"
  "cfg_y (set_x i v c) = cfg_y c" "cfg_a (set_x i v c) = cfg_a c" "cfg_pl (set_x i v c) = cfg_pl c"
  "cfg_n (set_y i v c) = cfg_n c" "cfg_x (set_y i v c) = cfg_x c"
  "cfg_y (set_y i v c) = (cfg_y c)(i := v)" "cfg_a (set_y i v c) = cfg_a c" "cfg_pl (set_y i v c) = cfg_pl c"
  "cfg_n (set_a i v c) = cfg_n c" "cfg_x (set_a i v c) = cfg_x c"
  "cfg_y (set_a i v c) = cfg_y c" "cfg_a (set_a i v c) = (cfg_a c)(i := v)" "cfg_pl (set_a i v c) = cfg_pl c"
  by (simp_all add: set_x_def set_y_def set_a_def)

lemma fold_upd_fields:
  "cfg_n (fold upd xs c) = cfg_n c \<and> cfg_x (fold upd xs c) = cfg_x c \<and>
   cfg_y (fold upd xs c) = cfg_y c \<and> cfg_a (fold upd xs c) = cfg_a c"
  by (induction xs arbitrary: c) simp_all

lemma fold_upd_pl:
  "cfg_pl (fold upd xs c) k =
     (if k \<in> set xs then getPoly (cfg_x c k) (cfg_y c k) (cfg_a c k) else cfg_pl c k)"
  by (induction xs arbitrary: c) (simp_all add: fold_upd_fields)

lemma updAll_simps [simp]:
  "cfg_n (updAll c) = cfg_n c" "cfg_x (updAll c) = cfg_x c" "cfg_y (updAll c) = cfg_y c"
  "cfg_a (updAll c) = cfg_a c"
  "cfg_pl (updAll c) k =
     (if k < cfg_n c then getPoly (cfg_x c k) (cfg_y c k) (cfg_a c k) else cfg_pl c k)"
  by (simp_all add: updAll_def fold_upd_fields fold_upd_pl)

lemma cfg_of_simps [simp]:
  "cfg_n (cfg_of ps) = length ps"
  "cfg_x (cfg_of ps) k = (if k < length ps then fst (ps ! k) else 0)"
  "cfg_y (cfg_of ps) k = (if k < length ps then fst (snd (ps ! k)) else 0)"
  "cfg_a (cfg_of ps) k = (if k < length ps then snd (snd (ps ! k)) else 0)"
  "cfg_pl (cfg_of ps) k =
     (if k < length ps then getPoly (fst (ps ! k)) (fst (snd (ps ! k))) (snd (snd (ps ! k)))
      else getPoly 0 0 0)"
  by (simp_all add: cfg_of_def)

lemma side_apart: "side cfg_apart = 11"
  unfolding side_def cfg_apart_def by (simp add: getPoly_deg0_box upt_rec)

subsection \<open>The acceptance test of the annealing step\<close>

lemma metropolis_reject:
  assumes "\<not> side (sa_cur st) - sa_cs st < 0"
    and "\<not> fst (rf (sa_rng st)) < exp (- (side (sa_cur st) - sa_cs st) / sa_T st)"
  shows "metropolis st = sa_reject (st\<lparr>sa_rng := snd (rf (sa_rng st))\<rparr>)"
  using assms unfolding metropolis_def Let_def by (simp add: case_prod_beta)

lemma reheat_cool_keeps:
  "sa_cur (reheat_cool T0 Tm alpha m) = sa_cur m \<and> sa_cs (reheat_cool T0 Tm alpha m) = sa_cs m \<and>
   sa_best (reheat_cool T0 Tm alpha m) = sa_best m \<and> sa_bs (reheat_cool T0 Tm alpha m) = sa_bs m \<and>
   sa_noImp (reheat_cool T0 Tm alpha m) = (if sa_noImp m > 600 then 0 else sa_noImp m)"
  unfolding reheat_cool_def Let_def by simp

lemma exp_quarter: "exp (- (1 / 4)) \<le> (4 / 5 :: real)"
proof -
  have "1 + 1 / 4 \<le> exp (1 / 4 :: real)" by (rule exp_ge_add_one_self)
  then have "inverse (exp (1 / 4 :: real)) \<le> inverse (5 / 4)"
    by (intro le_imp_inverse_le) simp_all
  then show ?thesis by (simp add: exp_minus)
qed

lemma move_example:
  "sa_move (fst (ri 8 rng_fifth)) 2 0.25 70 1 cfg_apart (snd (ri 8 rng_fifth))
   = Some (Tentative (upd 0 (set_y 0 (-0.25) (set_x 0 (-0.25) cfg_apart))) (\<lambda>k. rng_fifth (k + 4)))"
  unfolding sa_move_def move_single_def rng_fifth_def ri_def rf_def rng_next_def Let_def hasOvl_def
    cfg_apart_def overlap_def
  by (simp add: getPoly_deg0_box upt_rec)

lemma side_example: "side (upd 0 (set_y 0 (-0.25) (set_x 0 (-0.25) cfg_apart))) = 11.25"
  unfolding side_def cfg_apart_def by (simp add: getPoly_deg0_box upt_rec)

text \<open>
  Claim C2. When the tentative move of a step is feasible and the acceptance test
  fails (\<open>delta \<ge> 0\<close> and the drawn \<open>u \<ge> exp (- delta / T)\<close>), the state \<open>m\<close> left by the
  acceptance block has \<open>cur = best\<close>, \<open>cs = bs\<close> and \<open>noImp\<close> one higher, with \<open>best\<close> and \<open>bs\<close>
  untouched; the step ends with the reheating and cooling of \<open>m\<close>, which keep \<open>cur\<close> and
  \<open>cs\<close>.
\<close>

theorem sa_reject_restarts_from_best:
  assumes move: "sa_move (fst (ri 8 (sa_rng st))) c_n ms rs (sa_T st / T0) (sa_cur st)
                   (snd (ri 8 (sa_rng st))) = Some (Tentative t g)"
    and delta: "side t - sa_cs st \<ge> 0"
    and u: "fst (rf g) \<ge> exp (- (side t - sa_cs st) / sa_T st)"
  shows "\<exists>m. sa_step c_n T0 Tm ms rs alpha st = Some (reheat_cool T0 Tm alpha m) \<and>
             sa_cur m = sa_best st \<and> sa_cs m = sa_bs st \<and> sa_noImp m = sa_noImp st + 1 \<and>
             sa_best m = sa_best st \<and> sa_bs m = sa_bs st \<and>
             sa_cur (reheat_cool T0 Tm alpha m) = sa_best st \<and>
             sa_cs (reheat_cool T0 Tm alpha m) = sa_bs st"
proof -
  let ?s = "st\<lparr>sa_cur := t, sa_rng := g\<rparr>"
  let ?m = "sa_reject (?s\<lparr>sa_rng := snd (rf g)\<rparr>)"
  have step: "sa_step c_n T0 Tm ms rs alpha st = Some (reheat_cool T0 Tm alpha (metropolis ?s))"
    using move unfolding sa_step_def Let_def by (simp add: case_prod_beta)
  have "metropolis ?s = ?m"
    using metropolis_reject[of ?s] delta u by simp
  with step have "sa_step c_n T0 Tm ms rs alpha st = Some (reheat_cool T0 Tm alpha ?m)"
    by simp
  moreover have "sa_cur ?m = sa_best st" "sa_cs ?m = sa_bs st" "sa_noImp ?m = sa_noImp st + 1"
    "sa_best ?m = sa_best st" "sa_bs ?m = sa_bs st"
    by (simp_all add: sa_reject_def)
  ultimately show ?thesis
    using reheat_cool_keeps[of T0 Tm alpha ?m] by (intro exI[of _ ?m]) simp
qed

theorem sa_reject_restarts_from_best_witness:
  "\<exists>m. sa_step 2 1 0.000005 0.25 70 0.999 (sa_init cfg_apart 1 rng_fifth)
          = Some (reheat_cool 1 0.000005 0.999 m) \<and>
       sa_cur m = cfg_apart \<and> sa_cs m = 11 \<and> sa_noImp m = 1 \<and>
       sa_cur (reheat_cool 1 0.000005 0.999 m) = cfg_apart \<and>
       sa_cs (reheat_cool 1 0.000005 0.999 m) = 11"
proof -
  let ?st = "sa_init cfg_apart 1 rng_fifth"
  let ?t = "upd 0 (set_y 0 (-0.25) (set_x 0 (-0.25) cfg_apart))"
  let ?g = "\<lambda>k. rng_fifth (k + 4)"
  have move: "sa_move (fst (ri 8 (sa_rng ?st))) 2 0.25 70 (sa_T ?st / 1) (sa_cur ?st)
                (snd (ri 8 (sa_rng ?st))) = Some (Tentative ?t ?g)"
    using move_example by (simp add: sa_init_def)
  have delta: "side ?t - sa_cs ?st \<ge> 0"
    unfolding side_example by (simp add: side_apart sa_init_def)
  have "fst (rf ?g) = (2 ^ 64 - 1) / 2 ^ 64"
    by (simp add: rf_def rng_next_def rng_fifth_def)
  moreover have "exp (- (side ?t - sa_cs ?st) / sa_T ?st) = exp (- (1 / 4))"
    unfolding side_example by (simp add: side_apart sa_init_def)
  ultimately have u: "fst (rf ?g) \<ge> exp (- (side ?t - sa_cs ?st) / sa_T ?st)"
    using exp_quarter by simp
  show ?thesis
    using sa_reject_restarts_from_best[OF move delta u, of "0.000005" "0.999"]
    by (simp add: sa_init_def side_apart) blast
qed

subsection \<open>Move type 4 on a single polygon\<close>

lemma ri_one: "fst (ri (Suc 0) g) = 0"
  by (simp add: ri_def rng_next_def)

text \<open>
  Claim C9. With \<open>n = 1\<close> a drawn move type 4 is dispatched to the joint-move branch;
  there \<open>i = 0\<close> and \<open>j = (i + 1) mod 1 = 0\<close>, the translation is added twice to the one
  polygon, which is rebuilt at the doubled displacement, and the feasibility check is
  the overlap of that polygon with itself.
\<close>

theorem sa_type4_single_polygon:
  assumes "cfg_n cur = 1"
  shows "sa_move 4 (cfg_n cur) ms rs sc cur g = Some (move_joint (cfg_n cur) ms sc cur g) \<and>
         fst (ri (cfg_n cur) g) = 0 \<and> (fst (ri (cfg_n cur) g) + 1) mod cfg_n cur = 0 \<and>
         (let g1 = snd (ri (cfg_n cur) g);
              dr = (fst (rf g1) - 0.5) * ms * sc * 0.5;
              g2 = snd (rf g1);
              ds = (fst (rf g2) - 0.5) * ms * sc * 0.5;
              g3 = snd (rf g2);
              t = joint_tentative 0 0 dr ds cur
          in move_joint (cfg_n cur) ms sc cur g =
               (if overlap (cfg_pl t 0) (cfg_pl t 0)
                then Continue (upd 0 (upd 0 (set_y 0 (cfg_y cur 0) (set_x 0 (cfg_x cur 0)
                                (set_y 0 (cfg_y cur 0) (set_x 0 (cfg_x cur 0) t)))))) g3
                else Tentative t g3)) \<and>
         cfg_x (joint_tentative 0 0 dx dy cur) 0 = cfg_x cur 0 + 2 * dx \<and>
         cfg_y (joint_tentative 0 0 dx dy cur) 0 = cfg_y cur 0 + 2 * dy \<and>
         cfg_pl (joint_tentative 0 0 dx dy cur) 0
           = getPoly (cfg_x cur 0 + 2 * dx) (cfg_y cur 0 + 2 * dy) (cfg_a cur 0) \<and>
         hasOvlPair (joint_tentative 0 0 dx dy cur) 0 0
           = overlap (cfg_pl (joint_tentative 0 0 dx dy cur) 0) (cfg_pl (joint_tentative 0 0 dx dy cur) 0)"
proof -
  have h: "hasOvlPair (joint_tentative 0 0 a b cur) 0 0
           = overlap (cfg_pl (joint_tentative 0 0 a b cur) 0) (cfg_pl (joint_tentative 0 0 a b cur) 0)" for a b
    using assms by (simp add: joint_tentative_def Let_def hasOvlPair_def)
  have mj: "move_joint (Suc 0) ms sc cur g =
     (let g1 = snd (ri (Suc 0) g);
          dr = (fst (rf g1) - 0.5) * ms * sc * 0.5;
          g2 = snd (rf g1);
          ds = (fst (rf g2) - 0.5) * ms * sc * 0.5;
          g3 = snd (rf g2);
          t = joint_tentative 0 0 dr ds cur
      in if hasOvlPair t 0 0
         then Continue (upd 0 (upd 0 (set_y 0 (cfg_y cur 0) (set_x 0 (cfg_x cur 0)
                          (set_y 0 (cfg_y cur 0) (set_x 0 (cfg_x cur 0) t)))))) g3
         else Tentative t g3)"
    unfolding move_joint_def by (simp add: Let_def case_prod_beta ri_one)
  have f: "cfg_x (joint_tentative 0 0 dx dy cur) 0 = cfg_x cur 0 + 2 * dx"
    "cfg_y (joint_tentative 0 0 dx dy cur) 0 = cfg_y cur 0 + 2 * dy"
    "cfg_pl (joint_tentative 0 0 dx dy cur) 0
           = getPoly (cfg_x cur 0 + 2 * dx) (cfg_y cur 0 + 2 * dy) (cfg_a cur 0)"
    by (simp_all add: joint_tentative_def Let_def add.commute)
  have d: "sa_move 4 (Suc 0) ms rs sc cur g = Some (move_joint (Suc 0) ms sc cur g)"
    by (simp add: sa_move_def)
  show ?thesis
    unfolding assms One_nat_def using d mj f h by (simp add: ri_one Let_def)
qed

theorem sa_type4_single_polygon_witness:
  "sa_move 4 1 0.25 70 1 cfg_single (mt_zero 0) = Some (move_joint 1 0.25 1 cfg_single (mt_zero 0)) \<and>
   cfg_x (joint_tentative 0 0 0.01 0.02 cfg_single) 0 = 0.02 \<and>
   cfg_y (joint_tentative 0 0 0.01 0.02 cfg_single) 0 = 0.04 \<and>
   cfg_pl (joint_tentative 0 0 0.01 0.02 cfg_single) 0 = getPoly 0.02 0.04 0 \<and>
   hasOvlPair (joint_tentative 0 0 0.01 0.02 cfg_single) 0 0
     = overlap (getPoly 0.02 0.04 0) (getPoly 0.02 0.04 0)"
proof -
  have n: "cfg_n cfg_single = 1" by (simp add: cfg_single_def)
  have x: "cfg_x cfg_single 0 = 0" "cfg_y cfg_single 0 = 0" "cfg_a cfg_single 0 = 0"
    by (simp_all add: cfg_single_def)
  note T = sa_type4_single_polygon[OF n, of "0.25" 70 1 "mt_zero 0" "0.01" "0.02"]
  have 1: "sa_move 4 1 0.25 70 1 cfg_single (mt_zero 0)
           = Some (move_joint 1 0.25 1 cfg_single (mt_zero 0))"
    using T[THEN conjunct1] unfolding n .
  note R = T[THEN conjunct2, THEN conjunct2, THEN conjunct2, THEN conjunct2, unfolded x]
  show ?thesis using 1 R by simp
qed

subsection \<open>Clamping in the single-group optimizer\<close>

lemma clamp_range: "- 100 \<le> clamp v (- 100) 100 \<and> clamp v (- 100) 100 \<le> 100"
  by (simp add: clamp_def)

lemma sg_upd_fields [simp]: "sg_n (sg_upd i c) = sg_n c" "sg_t (sg_upd i c) = sg_t c"
  by (simp_all add: sg_upd_def)

lemma fold_sg_upd_fields:
  "sg_n (fold sg_upd xs c) = sg_n c \<and> sg_t (fold sg_upd xs c) = sg_t c"
  by (induction xs arbitrary: c) simp_all

lemma sg_updAll_fields [simp]: "sg_n (sg_updAll c) = sg_n c" "sg_t (sg_updAll c) = sg_t c"
  by (simp_all add: sg_updAll_def fold_sg_upd_fields)

lemma copyCfg_fields [simp]:
  "sg_n (copyCfg c) = sg_n c" "sg_t (copyCfg c) = sg_t c" "sg_p (copyCfg c) = sg_p c"
  by (simp_all add: copyCfg_def sg_Cfg_new_def)

lemma FastRNG_ri_less: "0 < k \<Longrightarrow> fst (FastRNG_ri k g) < k"
  by (simp add: FastRNG_ri_def Let_def case_prod_beta)

lemma sg_perturb_trees:
  assumes "0 < sg_n c" "length (sg_t c) = sg_n c"
  shows "sg_n (fst (sg_perturb c g move_scale ang_scale)) = sg_n c \<and>
         length (sg_t (fst (sg_perturb c g move_scale ang_scale))) = sg_n c \<and>
         fst (FastRNG_ri (sg_n c) g) < sg_n c \<and>
         in_box (sg_t (fst (sg_perturb c g move_scale ang_scale)) ! fst (FastRNG_ri (sg_n c) g)) \<and>
         (\<forall>k. k \<noteq> fst (FastRNG_ri (sg_n c) g) \<longrightarrow>
              sg_t (fst (sg_perturb c g move_scale ang_scale)) ! k = sg_t c ! k)"
  using assms FastRNG_ri_less[of "sg_n c" g] clamp_range
  by (simp add: sg_perturb_def Let_def case_prod_beta in_box_def)

lemma touched_ok_perturb:
  assumes "touched_ok base c" "0 < sg_n base"
  shows "touched_ok base (fst (sg_perturb c g move_scale ang_scale))"
proof -
  have n: "0 < sg_n c" "length (sg_t c) = sg_n c" using assms by (simp_all add: touched_ok_def)
  note P = sg_perturb_trees[OF n, of g move_scale ang_scale]
  show ?thesis
    unfolding touched_ok_def
  proof (intro conjI allI impI)
    fix k assume "k < sg_n base"
    show "sg_t (fst (sg_perturb c g move_scale ang_scale)) ! k = sg_t base ! k \<or>
          in_box (sg_t (fst (sg_perturb c g move_scale ang_scale)) ! k)"
    proof (cases "k = fst (FastRNG_ri (sg_n c) g)")
      case True
      then show ?thesis using P by simp
    next
      case False
      then have "sg_t (fst (sg_perturb c g move_scale ang_scale)) ! k = sg_t c ! k"
        using P by blast
      then show ?thesis using assms(1) \<open>k < sg_n base\<close> by (auto simp: touched_ok_def)
    qed
  qed (use P assms in \<open>simp_all add: touched_ok_def\<close>)
qed

lemma touched_ok_copy: "touched_ok base c \<Longrightarrow> touched_ok base (copyCfg c)"
  by (simp add: touched_ok_def)

lemma opt_loop_Suc:
  "opt_loop (Suc k) i iters (cur, best, bestScore, g) =
     (let P = sg_perturb (copyCfg cur) g
                (0.08 * (1 - real_of_int i / real_of_int iters * 0.85))
                (20 * (1 - real_of_int i / real_of_int iters * 0.85))
      in if sg_anyOvl (fst P) then opt_loop k (i + 1) iters (cur, best, bestScore, snd P)
         else if sg_score (fst P) < bestScore
              then opt_loop k (i + 1) iters (fst P, copyCfg (fst P), sg_score (fst P), snd P)
              else opt_loop k (i + 1) iters (fst P, best, bestScore, snd P))"
  by (simp only: opt_loop.simps Let_def case_prod_beta)

lemma opt_loop_touched:
  assumes "0 < sg_n base"
  shows "touched_ok base cur \<Longrightarrow> touched_ok base best \<Longrightarrow>
         opt_loop k i iters (cur, best, bestScore, g) = (cur', best', bestScore', g') \<Longrightarrow>
         touched_ok base best'"
proof (induction k arbitrary: i cur best bestScore g)
  case 0
  then show ?case by simp
next
  case (Suc k)
  define P where "P = sg_perturb (copyCfg cur) g
                (0.08 * (1 - real_of_int i / real_of_int iters * 0.85))
                (20 * (1 - real_of_int i / real_of_int iters * 0.85))"
  have cand: "touched_ok base (fst P)"
    unfolding P_def by (rule touched_ok_perturb[OF touched_ok_copy[OF Suc.prems(1)] assms])
  have eq: "(if sg_anyOvl (fst P) then opt_loop k (i + 1) iters (cur, best, bestScore, snd P)
         else if sg_score (fst P) < bestScore
              then opt_loop k (i + 1) iters (fst P, copyCfg (fst P), sg_score (fst P), snd P)
              else opt_loop k (i + 1) iters (fst P, best, bestScore, snd P))
        = (cur', best', bestScore', g')"
    using Suc.prems(3) unfolding opt_loop_Suc Let_def P_def .
  show ?case
  proof (cases "sg_anyOvl (fst P)")
    case True
    then show ?thesis using eq Suc.IH Suc.prems(1,2) by simp
  next
    case False
    then show ?thesis
      using eq Suc.IH[OF cand touched_ok_copy[OF cand]] Suc.IH[OF cand Suc.prems(2)]
      by (simp split: if_splits)
  qed
qed

lemma optimizeOne_touched:
  assumes "0 < sg_n base" "length (sg_t base) = sg_n base"
  shows "touched_ok base (optimizeOne base iters seed)"
proof -
  let ?cur = "sg_updAll (copyCfg base)"
  have c: "touched_ok base ?cur" using assms by (simp add: touched_ok_def)
  obtain cur' best' bs' g' where
    L: "opt_loop (nat iters) 0 iters (?cur, copyCfg ?cur, sg_score ?cur, FastRNG_init seed)
        = (cur', best', bs', g')"
    by (metis prod_cases4)
  have "touched_ok base best'"
    by (rule opt_loop_touched[OF assms(1) c touched_ok_copy[OF c] L])
  moreover have "optimizeOne base iters seed = best'"
    using L by (simp add: optimizeOne_def Let_def)
  ultimately show ?thesis by simp
qed

text \<open>
  Claim C10. \<^verbatim>\<open>perturb\<close> leaves the moved tree in the box and every other tree as it was;
  in the configuration returned by \<^verbatim>\<open>optimizeOne\<close> every tree is either the input's tree
  or lies in the box.
\<close>

theorem perturb_clamps_coordinates:
  assumes "0 < sg_n c" "length (sg_t c) = sg_n c"
  shows "in_box (sg_t (fst (sg_perturb c g move_scale ang_scale)) ! fst (FastRNG_ri (sg_n c) g)) \<and>
         (\<forall>k. k \<noteq> fst (FastRNG_ri (sg_n c) g) \<longrightarrow>
              sg_t (fst (sg_perturb c g move_scale ang_scale)) ! k = sg_t c ! k) \<and>
         touched_ok c (optimizeOne c iters seed)"
  using sg_perturb_trees[OF assms, of g move_scale ang_scale] optimizeOne_touched[OF assms]
  by simp

lemma ri_example: "fst (FastRNG_ri 2 (FastRNG_init 1234)) = 0"
  by (simp add: FastRNG_ri_def FastRNG_init_def FastRNG_next_def Let_def)

theorem perturb_clamps_coordinates_witness:
  "in_box (sg_t (fst (sg_perturb (sg_Cfg_new 2) (FastRNG_init 1234) 0.08 20)) ! 0) \<and>
   sg_t (fst (sg_perturb (sg_Cfg_new 2) (FastRNG_init 1234) 0.08 20)) ! 1 = sg_t (sg_Cfg_new 2) ! 1 \<and>
   touched_ok (sg_Cfg_new 2) (optimizeOne (sg_Cfg_new 2) 50 1234)"
proof -
  have a: "0 < sg_n (sg_Cfg_new 2)" and b: "length (sg_t (sg_Cfg_new 2)) = sg_n (sg_Cfg_new 2)"
    by (simp_all add: sg_Cfg_new_def)
  have n: "sg_n (sg_Cfg_new 2) = 2" by (simp add: sg_Cfg_new_def)
  show ?thesis
    using perturb_clamps_coordinates[OF a b, of "FastRNG_init 1234" "0.08" 20 50 1234]
    unfolding n ri_example by simp
qed

subsection \<open>The single-group tool writes only improvements\<close>

lemma sg_single_fields:
  "sg_n sg_single = 1"
  "sg_t sg_single = [\<lparr>tree_x = 0, tree_y = 0, tree_deg = 0\<rparr>]"
  "sg_p sg_single = [sg_getPoly 0 0 0]"
  by (simp_all add: sg_single_def sg_updAll_def sg_Cfg_new_def sg_upd_def)

lemma load_single: "sg_loadCSV rows_single 1 = Some sg_single"
  unfolding sg_loadCSV_def sg_count_def sg_fill_def rows_single_def Let_def sg_single_def
  by (simp add: sg_Cfg_new_def)

lemma sg_origin_box:
  "sg_x0 (sg_getPoly 0 0 0) = - 0.35 \<and> sg_x1 (sg_getPoly 0 0 0) = 0.35 \<and>
   sg_y0 (sg_getPoly 0 0 0) = - 0.2 \<and> sg_y1 (sg_getPoly 0 0 0) = 0.8"
  unfolding sg_getPoly_def NV_def TX_def TY_def Let_def
  by (simp add: upt_rec)

lemma sg_single_score: "sg_score sg_single = 1"
  unfolding sg_score_def by (simp add: sg_single_fields sg_origin_box)

lemma optimizeOne_zero: "optimizeOne c 0 seed = copyCfg (sg_updAll (copyCfg c))"
  by (simp add: optimizeOne_def Let_def)

lemma sg_single_fix: "copyCfg (sg_updAll (copyCfg sg_single)) = sg_single"
proof -
  have c: "copyCfg sg_single = sg_single"
    by (simp add: copyCfg_def sg_Cfg_new_def sg_single_fields)
  have "sg_updAll sg_single = sg_single"
    by (simp add: sg_updAll_def sg_upd_def sg_single_fields)
  then show ?thesis by (simp only: c)
qed

lemma optimizeParallel_single: "optimizeParallel sg_single 0 8 = sg_single"
  unfolding optimizeParallel_def Let_def min_element_def
  by (simp add: optimizeOne_zero sg_single_fix upt_rec)

text \<open>
  Claim C8. Once the target group is found in the input, the output file is written
  exactly when the optimized configuration has no overlap and its score is below the
  initial score by more than \<open>1e-12\<close>; it then holds all groups with the target group
  replaced. Otherwise nothing is written and the tool reports no improvement.
\<close>

theorem sg_main_writes_iff:
  assumes env: "groupEnv = Some targetN"
    and grp: "sg_loadCSV rows targetN = Some c"
    and opt: "opt = optimizeParallel c (fst (sg_params targetN iters restarts))
                      (max 8 (snd (sg_params targetN iters restarts)))"
  shows "(written (sg_main groupEnv rows iters restarts) \<noteq> None)
           = (\<not> sg_anyOvl opt \<and> sg_score opt < sg_score c - 0.000000000001) \<and>
         (if \<not> sg_anyOvl opt \<and> sg_score opt < sg_score c - 0.000000000001
          then written (sg_main groupEnv rows iters restarts)
                 = Some (sg_saveCSV ((sg_loadCSV rows)(targetN \<mapsto> opt))) \<and>
               reported (sg_main groupEnv rows iters restarts) = Improved
          else written (sg_main groupEnv rows iters restarts) = None \<and>
               reported (sg_main groupEnv rows iters restarts) = NoImprovement)"
  using assms by (simp add: sg_main_def Let_def case_prod_beta)

theorem sg_main_writes_iff_witness:
  "written (sg_main (Some 1) rows_single 0 0) = None \<and>
   reported (sg_main (Some 1) rows_single 0 0) = NoImprovement \<and>
   \<not> sg_anyOvl sg_single \<and> \<not> sg_score sg_single < sg_score sg_single - 0.000000000001"
proof -
  have p: "sg_params 1 0 0 = (0, 0)" by (simp add: sg_params_def trunc_int_def)
  have o: "sg_single
             = optimizeParallel sg_single (fst (sg_params 1 0 0)) (max 8 (snd (sg_params 1 0 0)))"
    by (simp add: p optimizeParallel_single)
  have "\<not> sg_anyOvl sg_single"
    by (simp add: sg_anyOvl_def sg_single_fields)
  then show ?thesis
    using sg_main_writes_iff[OF refl load_single o] by simp
qed

subsection \<open>Feasibility after a change of one or two polygons\<close>

lemma anyOvl_iff:
  "anyOvl c \<longleftrightarrow> (\<exists>i j. i < j \<and> j < cfg_n c \<and> overlap (cfg_pl c i) (cfg_pl c j))"
proof
  assume "anyOvl c"
  then obtain i j where "Suc i \<le> j" "j < cfg_n c" "overlap (cfg_pl c i) (cfg_pl c j)"
    unfolding anyOvl_def list_ex_iff by auto
  then show "\<exists>i j. i < j \<and> j < cfg_n c \<and> overlap (cfg_pl c i) (cfg_pl c j)"
    by (intro exI[of _ i] exI[of _ j]) simp
next
  assume "\<exists>i j. i < j \<and> j < cfg_n c \<and> overlap (cfg_pl c i) (cfg_pl c j)"
  then obtain i j where ij: "i < j" "j < cfg_n c" "overlap (cfg_pl c i) (cfg_pl c j)" by blast
  then have "i \<in> set [0..<cfg_n c]" "j \<in> set [i + 1..<cfg_n c]" by simp_all
  then show "anyOvl c"
    unfolding anyOvl_def list_ex_iff using ij(3) by blast
qed

lemma hasOvl_iff:
  "hasOvl c i \<longleftrightarrow> (\<exists>j. j < cfg_n c \<and> j \<noteq> i \<and> overlap (cfg_pl c i) (cfg_pl c j))"
  unfolding hasOvl_def list_ex_iff by auto

lemma hasOvlPair_iff:
  "hasOvlPair c i j \<longleftrightarrow>
     overlap (cfg_pl c i) (cfg_pl c j) \<or>
     (\<exists>k. k < cfg_n c \<and> k \<noteq> i \<and> k \<noteq> j \<and>
          (overlap (cfg_pl c i) (cfg_pl c k) \<or> overlap (cfg_pl c j) (cfg_pl c k)))"
  unfolding hasOvlPair_def list_ex_iff by auto

lemma separated_iff:
  "separated c \<longleftrightarrow>
     (\<forall>i j. i < cfg_n c \<and> j < cfg_n c \<and> i \<noteq> j \<longrightarrow>
            \<not> overlap (cfg_pl c i) (cfg_pl c j) \<or> \<not> overlap (cfg_pl c j) (cfg_pl c i))"
proof
  assume S: "separated c"
  show "\<forall>i j. i < cfg_n c \<and> j < cfg_n c \<and> i \<noteq> j \<longrightarrow>
            \<not> overlap (cfg_pl c i) (cfg_pl c j) \<or> \<not> overlap (cfg_pl c j) (cfg_pl c i)"
  proof (intro allI impI)
    fix i j assume ij: "i < cfg_n c \<and> j < cfg_n c \<and> i \<noteq> j"
    have lt: "\<And>a b. a < b \<Longrightarrow> b < cfg_n c \<Longrightarrow>
                \<not> (overlap (cfg_pl c a) (cfg_pl c b) \<and> overlap (cfg_pl c b) (cfg_pl c a))"
      using S unfolding separated_def list_all_iff by simp
    show "\<not> overlap (cfg_pl c i) (cfg_pl c j) \<or> \<not> overlap (cfg_pl c j) (cfg_pl c i)"
    proof (cases "i < j")
      case True
      then show ?thesis using lt[of i j] ij by blast
    next
      case False
      then have "j < i" using ij by simp
      then show ?thesis using lt[of j i] ij by blast
    qed
  qed
next
  assume "\<forall>i j. i < cfg_n c \<and> j < cfg_n c \<and> i \<noteq> j \<longrightarrow>
            \<not> overlap (cfg_pl c i) (cfg_pl c j) \<or> \<not> overlap (cfg_pl c j) (cfg_pl c i)"
  then show "separated c"
    unfolding separated_def list_all_iff by auto
qed

lemma separated_of_feasible: "\<not> anyOvl c \<Longrightarrow> separated c"
  unfolding separated_iff anyOvl_iff by (metis nat_neq_iff)

lemma feasible_after_one:
  assumes "separated c" "cfg_n t = cfg_n c" "\<forall>k. k \<noteq> i \<longrightarrow> cfg_pl t k = cfg_pl c k"
    and "\<not> hasOvl t i"
  shows "separated t"
  unfolding separated_iff
proof (intro allI impI)
  fix a b assume ab: "a < cfg_n t \<and> b < cfg_n t \<and> a \<noteq> b"
  note H = assms(4)[unfolded hasOvl_iff, simplified]
  show "\<not> overlap (cfg_pl t a) (cfg_pl t b) \<or> \<not> overlap (cfg_pl t b) (cfg_pl t a)"
  proof (cases "a = i \<or> b = i")
    case True
    then show ?thesis using ab H by metis
  next
    case False
    then show ?thesis using ab assms(1,2,3) unfolding separated_iff by simp
  qed
qed

lemma feasible_after_two:
  assumes "separated c" "cfg_n t = cfg_n c"
    and "\<forall>k. k \<noteq> i \<and> k \<noteq> j \<longrightarrow> cfg_pl t k = cfg_pl c k"
    and "\<not> hasOvlPair t i j"
  shows "separated t"
  unfolding separated_iff
proof (intro allI impI)
  fix a b assume ab: "a < cfg_n t \<and> b < cfg_n t \<and> a \<noteq> b"
  note H = assms(4)[unfolded hasOvlPair_iff, simplified]
  show "\<not> overlap (cfg_pl t a) (cfg_pl t b) \<or> \<not> overlap (cfg_pl t b) (cfg_pl t a)"
  proof (cases "(a = i \<or> a = j) \<or> (b = i \<or> b = j)")
    case True
    then show ?thesis using ab H by metis
  next
    case False
    then show ?thesis using ab assms(1,2,3) unfolding separated_iff by simp
  qed
qed

lemma ri_less: "0 < k \<Longrightarrow> fst (ri k g) < k"
  by (simp add: ri_def rng_next_def)

text \<open>One polygon: the tentative configuration is \<open>upd i t0\<close>, where \<open>t0\<close> has a new pose at \<open>i\<close>.\<close>

lemma single_keep:
  assumes "good k cur" "cfg_n t0 = cfg_n cur" "cfg_pl t0 = cfg_pl cur"
    and "\<forall>j. j \<noteq> i \<longrightarrow> cfg_x t0 j = cfg_x cur j \<and> cfg_y t0 j = cfg_y cur j \<and> cfg_a t0 j = cfg_a cur j"
    and "\<not> hasOvl (upd i t0) i"
  shows "good k (upd i t0)"
proof -
  have "separated (upd i t0)"
    by (rule feasible_after_one[of cur _ i]) (use assms in \<open>simp_all add: good_def\<close>)
  moreover have "consistent (upd i t0)"
    using assms(1-4) unfolding good_def consistent_def by simp
  ultimately show ?thesis using assms(1,2) by (simp add: good_def)
qed

lemma single_undo:
  assumes "good k cur" "i < k" "cfg_n t0 = cfg_n cur" "cfg_pl t0 = cfg_pl cur"
    and "\<forall>j. j \<noteq> i \<longrightarrow> cfg_x t0 j = cfg_x cur j \<and> cfg_y t0 j = cfg_y cur j \<and> cfg_a t0 j = cfg_a cur j"
  shows "upd i (set_a i (cfg_a cur i) (set_y i (cfg_y cur i) (set_x i (cfg_x cur i) (upd i t0)))) = cur"
proof -
  have pl: "getPoly (cfg_x cur i) (cfg_y cur i) (cfg_a cur i) = cfg_pl cur i"
    using assms(1,2) by (simp add: good_def consistent_def)
  show ?thesis
    by (rule Cfg.equality) (use assms(3-5) pl in \<open>auto simp: fun_eq_iff\<close>)
qed

lemma single_undo_xy:
  assumes "good k cur" "i < k" "cfg_n t0 = cfg_n cur" "cfg_pl t0 = cfg_pl cur" "cfg_a t0 = cfg_a cur"
    and "\<forall>j. j \<noteq> i \<longrightarrow> cfg_x t0 j = cfg_x cur j \<and> cfg_y t0 j = cfg_y cur j"
  shows "upd i (set_y i (cfg_y cur i) (set_x i (cfg_x cur i) (upd i t0))) = cur"
proof -
  have pl: "getPoly (cfg_x cur i) (cfg_y cur i) (cfg_a cur i) = cfg_pl cur i"
    using assms(1,2) by (simp add: good_def consistent_def)
  show ?thesis
    by (rule Cfg.equality) (use assms(3-6) pl in \<open>auto simp: fun_eq_iff\<close>)
qed

lemma move_single_ok:
  assumes "good k cur" "0 < k"
  shows "move_ok k cur (move_single moveType k ms rs sc cur g0)"
proof -
  define i where "i = fst (ri k g0)"
  define g1 where "g1 = snd (ri k g0)"
  define B where "B =
            (if moveType = 0 then
               (let (u1, ga) = rf g1;
                    t1 = set_x i (cfg_x cur i + (u1 - 0.5) * 2 * ms * sc) cur;
                    (u2, gb) = rf ga
                in (set_y i (cfg_y t1 i + (u2 - 0.5) * 2 * ms * sc) t1, gb))
             else if moveType = 1 then
               (let dx = fst (centroid cur) - cfg_x cur i; dy = snd (centroid cur) - cfg_y cur i;
                    d = sqrt (dx * dx + dy * dy)
                in if d > 0.000001 then
                     (let (u, ga) = rf g1; st = u * ms * sc;
                          t1 = set_x i (cfg_x cur i + dx / d * st) cur
                      in (set_y i (cfg_y t1 i + dy / d * st) t1, ga))
                   else (cur, g1))
             else if moveType = 2 then
               (let (u, ga) = rf g1;
                    t1 = set_a i (cfg_a cur i + (u - 0.5) * 2 * rs * sc) cur
                in (set_a i (fmod (cfg_a t1 i + 360) 360) t1, ga))
             else
               (let (u1, ga) = rf g1;
                    t1 = set_x i (cfg_x cur i + (u1 - 0.5) * ms * sc) cur;
                    (u2, gb) = rf ga;
                    t2 = set_y i (cfg_y t1 i + (u2 - 0.5) * ms * sc) t1;
                    (u3, gc) = rf gb;
                    t3 = set_a i (cfg_a t2 i + (u3 - 0.5) * rs * sc) t2
                in (set_a i (fmod (cfg_a t3 i + 360) 360) t3, gc)))"
  have eq: "move_single moveType k ms rs sc cur g0 =
       (if hasOvl (upd i (fst B)) i
        then Continue (upd i (set_a i (cfg_a cur i) (set_y i (cfg_y cur i)
                         (set_x i (cfg_x cur i) (upd i (fst B)))))) (snd B)
        else Tentative (upd i (fst B)) (snd B))"
    unfolding move_single_def B_def i_def g1_def
    by (simp only: Let_def case_prod_beta fst_conv snd_conv)
  have il: "i < k" unfolding i_def by (rule ri_less[OF assms(2)])
  have t0: "cfg_n (fst B) = cfg_n cur" "cfg_pl (fst B) = cfg_pl cur"
    "\<forall>j. j \<noteq> i \<longrightarrow> cfg_x (fst B) j = cfg_x cur j \<and> cfg_y (fst B) j = cfg_y cur j \<and>
                   cfg_a (fst B) j = cfg_a cur j"
    unfolding B_def by (simp_all add: Let_def case_prod_beta)
  show ?thesis
    unfolding eq move_ok_def
    using single_keep[OF assms(1) t0] single_undo[OF assms(1) il t0]
    by simp
qed

lemma move_bbox_ok:
  assumes "good k cur" "0 < k"
  shows "move_ok k cur (move_bbox k ms sc cur g0)"
proof -
  define i where "i = fst (ri k g0)"
  define g1 where "g1 = snd (ri k g0)"
  define dx where "dx = (fst (getBBox cur) + fst (snd (snd (getBBox cur)))) / 2 - cfg_x cur i"
  define dy where "dy = (fst (snd (getBBox cur)) + snd (snd (snd (getBBox cur)))) / 2 - cfg_y cur i"
  define B where "B =
            (if sqrt (dx * dx + dy * dy) > 0.000001 then
               (let (u, ga) = rf g1; st = u * ms * sc * 0.5;
                    t1 = set_x i (cfg_x cur i + dx / sqrt (dx * dx + dy * dy) * st) cur
                in (set_y i (cfg_y t1 i + dy / sqrt (dx * dx + dy * dy) * st) t1, ga))
             else (cur, g1))"
  have eq: "move_bbox k ms sc cur g0 =
       (if hasOvl (upd i (fst B)) i
        then Continue (upd i (set_y i (cfg_y cur i) (set_x i (cfg_x cur i) (upd i (fst B))))) (snd B)
        else Tentative (upd i (fst B)) (snd B))"
    unfolding move_bbox_def B_def i_def g1_def dx_def dy_def
    by (simp only: Let_def case_prod_beta fst_conv snd_conv)
  have il: "i < k" unfolding i_def by (rule ri_less[OF assms(2)])
  have t0: "cfg_n (fst B) = cfg_n cur" "cfg_pl (fst B) = cfg_pl cur"
    "\<forall>j. j \<noteq> i \<longrightarrow> cfg_x (fst B) j = cfg_x cur j \<and> cfg_y (fst B) j = cfg_y cur j \<and>
                   cfg_a (fst B) j = cfg_a cur j"
    and ta: "cfg_a (fst B) = cfg_a cur"
    unfolding B_def by (simp_all add: Let_def case_prod_beta)
  have t0': "\<forall>j. j \<noteq> i \<longrightarrow> cfg_x (fst B) j = cfg_x cur j \<and> cfg_y (fst B) j = cfg_y cur j"
    using t0(3) by simp
  show ?thesis
    unfolding eq move_ok_def
    using single_keep[OF assms(1) t0] single_undo_xy[OF assms(1) il t0(1,2) ta t0']
    by simp
qed

lemma findCornerTrees_less: "i \<in> set (findCornerTrees c) \<Longrightarrow> i < cfg_n c"
  by (auto simp: findCornerTrees_def Let_def case_prod_beta)

lemma move_corner_ok:
  assumes "good k cur"
  shows "move_ok k cur (move_corner ms rs sc cur g0)"
proof (cases "findCornerTrees cur = []")
  case True
  then show ?thesis by (simp add: move_corner_def move_ok_def)
next
  case False
  define corners where "corners = findCornerTrees cur"
  define i where "i = corners ! fst (ri (length corners) g0)"
  define g1 where "g1 = snd (ri (length corners) g0)"
  define dx where "dx = (fst (getBBox cur) + fst (snd (snd (getBBox cur)))) / 2 - cfg_x cur i"
  define dy where "dy = (fst (snd (getBBox cur)) + snd (snd (snd (getBBox cur)))) / 2 - cfg_y cur i"
  define B where "B =
                  (if sqrt (dx * dx + dy * dy) > 0.000001 then
                     (let (u1, ga) = rf g1; st = u1 * ms * sc * 0.3;
                          t1 = set_x i (cfg_x cur i + dx / sqrt (dx * dx + dy * dy) * st) cur;
                          t2 = set_y i (cfg_y t1 i + dy / sqrt (dx * dx + dy * dy) * st) t1;
                          (u2, gb) = rf ga;
                          t3 = set_a i (cfg_a t2 i + (u2 - 0.5) * rs * sc * 0.5) t2
                      in (set_a i (fmod (cfg_a t3 i + 360) 360) t3, gb))
                   else (cur, g1))"
  have eq: "move_corner ms rs sc cur g0 =
       (if hasOvl (upd i (fst B)) i
        then Continue (upd i (set_a i (cfg_a cur i) (set_y i (cfg_y cur i)
                         (set_x i (cfg_x cur i) (upd i (fst B)))))) (snd B)
        else Tentative (upd i (fst B)) (snd B))"
    using False
    unfolding move_corner_def B_def i_def g1_def dx_def dy_def corners_def
    by (simp only: Let_def case_prod_beta fst_conv snd_conv if_True not_False_eq_True)
  have "fst (ri (length corners) g0) < length corners"
    using False by (intro ri_less) (simp add: corners_def)
  then have "i \<in> set (findCornerTrees cur)"
    unfolding i_def corners_def by simp
  then have il: "i < k"
    using findCornerTrees_less assms by (auto simp: good_def)
  have t0: "cfg_n (fst B) = cfg_n cur" "cfg_pl (fst B) = cfg_pl cur"
    "\<forall>j. j \<noteq> i \<longrightarrow> cfg_x (fst B) j = cfg_x cur j \<and> cfg_y (fst B) j = cfg_y cur j \<and>
                   cfg_a (fst B) j = cfg_a cur j"
    unfolding B_def by (simp_all add: Let_def case_prod_beta)
  show ?thesis
    unfolding eq move_ok_def
    using single_keep[OF assms(1) t0] single_undo[OF assms(1) il t0]
    by simp
qed

text \<open>Two polygons.\<close>

lemma pair_keep:
  assumes "good k cur" "cfg_n t0 = cfg_n cur" "cfg_pl t0 = cfg_pl cur"
    and "\<forall>l. l \<noteq> i \<and> l \<noteq> j \<longrightarrow>
              cfg_x t0 l = cfg_x cur l \<and> cfg_y t0 l = cfg_y cur l \<and> cfg_a t0 l = cfg_a cur l"
    and "\<not> hasOvlPair (upd j (upd i t0)) i j"
  shows "good k (upd j (upd i t0))"
proof -
  have "separated (upd j (upd i t0))"
    by (rule feasible_after_two[of cur _ i j]) (use assms in \<open>simp_all add: good_def\<close>)
  moreover have "consistent (upd j (upd i t0))"
    using assms(1-4) unfolding good_def consistent_def by simp
  ultimately show ?thesis using assms(1,2) by (simp add: good_def)
qed

lemma pair_undo:
  assumes "good k cur" "i < k" "j < k" "cfg_n t0 = cfg_n cur" "cfg_pl t0 = cfg_pl cur"
    "cfg_a t0 = cfg_a cur"
    and "\<forall>l. l \<noteq> i \<and> l \<noteq> j \<longrightarrow> cfg_x t0 l = cfg_x cur l \<and> cfg_y t0 l = cfg_y cur l"
  shows "upd j (upd i (set_y j (cfg_y cur j) (set_x j (cfg_x cur j)
           (set_y i (cfg_y cur i) (set_x i (cfg_x cur i) (upd j (upd i t0))))))) = cur"
proof -
  have pl: "getPoly (cfg_x cur i) (cfg_y cur i) (cfg_a cur i) = cfg_pl cur i"
    "getPoly (cfg_x cur j) (cfg_y cur j) (cfg_a cur j) = cfg_pl cur j"
    using assms(1,2,3) by (simp_all add: good_def consistent_def)
  show ?thesis
    by (rule Cfg.equality) (use assms(4-7) pl in \<open>auto simp: fun_eq_iff\<close>)
qed

lemma move_joint_ok:
  assumes "good k cur" "0 < k"
  shows "move_ok k cur (move_joint k ms sc cur g0)"
proof -
  define i where "i = fst (ri k g0)"
  define j where "j = (i + 1) mod k"
  define g1 where "g1 = snd (ri k g0)"
  define dx where "dx = (fst (rf g1) - 0.5) * ms * sc * 0.5"
  define dy where "dy = (fst (rf (snd (rf g1))) - 0.5) * ms * sc * 0.5"
  define t0 where "t0 = set_y j (cfg_y (set_x j (cfg_x (set_y i (cfg_y (set_x i (cfg_x cur i + dx) cur) i + dy)
                      (set_x i (cfg_x cur i + dx) cur)) j + dx) (set_y i (cfg_y (set_x i (cfg_x cur i + dx) cur) i + dy)
                      (set_x i (cfg_x cur i + dx) cur))) j + dy)
                   (set_x j (cfg_x (set_y i (cfg_y (set_x i (cfg_x cur i + dx) cur) i + dy)
                      (set_x i (cfg_x cur i + dx) cur)) j + dx) (set_y i (cfg_y (set_x i (cfg_x cur i + dx) cur) i + dy)
                      (set_x i (cfg_x cur i + dx) cur)))"
  have jt: "joint_tentative i j dx dy cur = upd j (upd i t0)"
    unfolding joint_tentative_def t0_def by (simp only: Let_def)
  have eq: "move_joint k ms sc cur g0 =
       (if hasOvlPair (upd j (upd i t0)) i j
        then Continue (upd j (upd i (set_y j (cfg_y cur j) (set_x j (cfg_x cur j)
               (set_y i (cfg_y cur i) (set_x i (cfg_x cur i) (upd j (upd i t0))))))))
               (snd (rf (snd (rf g1))))
        else Tentative (upd j (upd i t0)) (snd (rf (snd (rf g1)))))"
    unfolding move_joint_def
    by (simp only: Let_def case_prod_beta fst_conv snd_conv
          i_def[symmetric] g1_def[symmetric] j_def[symmetric] dx_def[symmetric] dy_def[symmetric] jt)
  have il: "i < k" unfolding i_def by (rule ri_less[OF assms(2)])
  have jl: "j < k" unfolding j_def using assms(2) by simp
  have t0p: "cfg_n t0 = cfg_n cur" "cfg_pl t0 = cfg_pl cur"
    "\<forall>l. l \<noteq> i \<and> l \<noteq> j \<longrightarrow>
              cfg_x t0 l = cfg_x cur l \<and> cfg_y t0 l = cfg_y cur l \<and> cfg_a t0 l = cfg_a cur l"
    and ta: "cfg_a t0 = cfg_a cur"
    unfolding t0_def by simp_all
  have t0': "\<forall>l. l \<noteq> i \<and> l \<noteq> j \<longrightarrow> cfg_x t0 l = cfg_x cur l \<and> cfg_y t0 l = cfg_y cur l"
    using t0p(3) by simp
  show ?thesis
    unfolding eq move_ok_def
    using pair_keep[OF assms(1) t0p] pair_undo[OF assms(1) il jl t0p(1,2) ta t0']
    by simp
qed

subsection \<open>The annealing run keeps feasibility\<close>

lemma redraw_post_aux:
  assumes "redraw k i j g = Some r"
  shows "0 < k \<longrightarrow> j < k \<longrightarrow> fst r \<noteq> i \<and> fst r < k"
proof (rule redraw.raw_induct[where P = "\<lambda>k i j g r. 0 < k \<longrightarrow> j < k \<longrightarrow> fst r \<noteq> i \<and> fst r < k",
        OF _ assms])
  fix rd :: "nat \<Rightarrow> nat \<Rightarrow> nat \<Rightarrow> rng \<Rightarrow> (nat \<times> rng) option" and k i j g r
  assume IH: "\<And>k i j g r. rd k i j g = Some r \<Longrightarrow> 0 < k \<longrightarrow> j < k \<longrightarrow> fst r \<noteq> i \<and> fst r < k"
    and eq: "(if j = i then case ri k g of (j', g') \<Rightarrow> rd k i j' g' else Some (j, g)) = Some r"
  show "0 < k \<longrightarrow> j < k \<longrightarrow> fst r \<noteq> i \<and> fst r < k"
  proof (cases "j = i")
    case True
    then have "rd k i (fst (ri k g)) (snd (ri k g)) = Some r"
      using eq by (simp add: case_prod_beta)
    then show ?thesis
      using IH[of k i "fst (ri k g)" "snd (ri k g)" r] ri_less[of k g] by simp
  next
    case False
    then show ?thesis using eq by auto
  qed
qed

lemma redraw_post:
  assumes "redraw k i j g = Some r" "0 < k" "j < k"
  shows "fst r \<noteq> i \<and> fst r < k"
  using redraw_post_aux[OF assms(1)] assms(2,3) by simp

lemma move_swap_ok:
  assumes "good k cur" "0 < k" "move_swap k cur g0 = Some m"
  shows "move_ok k cur m"
proof -
  define i where "i = fst (ri k g0)"
  define g1 where "g1 = snd (ri k g0)"
  obtain j g3 where R: "redraw k i (fst (ri k g1)) (snd (ri k g1)) = Some (j, g3)"
    using assms(3) unfolding move_swap_def i_def g1_def
    by (auto simp: Let_def case_prod_beta split: option.splits)
  define t0 where "t0 = set_y j (cfg_y cur i) (set_x j (cfg_x cur i)
                          (set_y i (cfg_y cur j) (set_x i (cfg_x cur j) cur)))"
  have eq: "m =
       (if hasOvlPair (upd j (upd i t0)) i j
        then Continue (upd j (upd i (set_y j (cfg_y cur j) (set_x j (cfg_x cur j)
               (set_y i (cfg_y cur i) (set_x i (cfg_x cur i) (upd j (upd i t0)))))))) g3
        else Tentative (upd j (upd i t0)) g3)"
    using assms(3) R unfolding move_swap_def i_def g1_def t0_def
    by (simp add: Let_def case_prod_beta split: if_splits)
  have il: "i < k" unfolding i_def by (rule ri_less[OF assms(2)])
  have jl: "j < k"
    using redraw_post[OF R assms(2) ri_less[OF assms(2)]] by simp
  have t0p: "cfg_n t0 = cfg_n cur" "cfg_pl t0 = cfg_pl cur"
    "\<forall>l. l \<noteq> i \<and> l \<noteq> j \<longrightarrow>
              cfg_x t0 l = cfg_x cur l \<and> cfg_y t0 l = cfg_y cur l \<and> cfg_a t0 l = cfg_a cur l"
    and ta: "cfg_a t0 = cfg_a cur"
    unfolding t0_def by simp_all
  have t0': "\<forall>l. l \<noteq> i \<and> l \<noteq> j \<longrightarrow> cfg_x t0 l = cfg_x cur l \<and> cfg_y t0 l = cfg_y cur l"
    using t0p(3) by simp
  show ?thesis
    unfolding eq move_ok_def
    using pair_keep[OF assms(1) t0p] pair_undo[OF assms(1) il jl t0p(1,2) ta t0']
    by simp
qed

lemma sa_move_ok:
  assumes "good k cur" "0 < k" "sa_move moveType k ms rs sc cur g = Some m"
  shows "move_ok k cur m"
  using assms move_single_ok[OF assms(1,2)] move_swap_ok[OF assms(1,2)]
    move_bbox_ok[OF assms(1,2)] move_corner_ok[OF assms(1)] move_joint_ok[OF assms(1,2)]
  by (auto simp: sa_move_def split: if_splits)

lemma metropolis_inv: "sa_inv k st \<Longrightarrow> sa_inv k (metropolis st)"
  by (auto simp: metropolis_def sa_accept_def sa_reject_def sa_inv_def Let_def case_prod_beta)

lemma reheat_cool_inv: "sa_inv k st \<Longrightarrow> sa_inv k (reheat_cool T0 Tm alpha st)"
  by (simp add: reheat_cool_def sa_inv_def Let_def)

lemma sa_step_inv:
  assumes "sa_inv k st" "0 < k" "sa_step k T0 Tm ms rs alpha st = Some st'"
  shows "sa_inv k st'"
proof -
  define mt where "mt = fst (ri 8 (sa_rng st))"
  define g1 where "g1 = snd (ri 8 (sa_rng st))"
  obtain m where M: "sa_move mt k ms rs (sa_T st / T0) (sa_cur st) g1 = Some m"
    using assms(3) unfolding sa_step_def mt_def g1_def
    by (auto simp: Let_def case_prod_beta split: option.splits)
  have ok: "move_ok k (sa_cur st) m"
    using sa_move_ok[OF _ assms(2) M] assms(1) by (simp add: sa_inv_def)
  show ?thesis
  proof (cases m)
    case (Continue c g)
    then have "st' = st\<lparr>sa_cur := c, sa_noImp := sa_noImp st + 1,
                       sa_T := cool alpha Tm (sa_T st), sa_rng := g\<rparr>"
      using assms(3) M unfolding sa_step_def mt_def g1_def
      by (simp add: Let_def case_prod_beta)
    then show ?thesis using ok Continue assms(1) by (simp add: move_ok_def sa_inv_def)
  next
    case (Tentative t g)
    then have st': "st' = reheat_cool T0 Tm alpha (metropolis (st\<lparr>sa_cur := t, sa_rng := g\<rparr>))"
      using assms(3) M unfolding sa_step_def mt_def g1_def
      by (simp add: Let_def case_prod_beta)
    have "sa_inv k (st\<lparr>sa_cur := t, sa_rng := g\<rparr>)"
      using ok Tentative assms(1) by (simp add: move_ok_def sa_inv_def)
    then show ?thesis unfolding st' by (intro reheat_cool_inv metropolis_inv)
  qed
qed

lemma sa_loop_inv:
  "sa_inv k st \<Longrightarrow> 0 < k \<Longrightarrow> sa_loop m k T0 Tm ms rs alpha st = Some st' \<Longrightarrow> sa_inv k st'"
proof (induction m arbitrary: st)
  case 0
  then show ?case by simp
next
  case (Suc m)
  then obtain s1 where s1: "sa_step k T0 Tm ms rs alpha st = Some s1"
    and rest: "sa_loop m k T0 Tm ms rs alpha s1 = Some st'"
    by (auto split: option.splits)
  show ?case
    by (rule Suc.IH[OF sa_step_inv[OF Suc.prems(1,2) s1] Suc.prems(2) rest])
qed

lemma sa_v3_feasible:
  assumes "consistent c" "separated c" "0 < cfg_n c"
    and "sa_v3 mt c iter T0 Tm ms rs seed = Some r"
  shows "separated r \<and> consistent r \<and> cfg_n r = cfg_n c"
proof -
  have i: "sa_inv (cfg_n c) (sa_init c T0 (mt seed))"
    using assms(1,2) by (simp add: sa_inv_def sa_init_def good_def)
  obtain st' where L: "sa_loop (nat iter) (cfg_n c) T0 Tm ms rs
                         ((Tm / T0) powr (1 / real_of_int iter)) (sa_init c T0 (mt seed)) = Some st'"
    and r: "r = sa_best st'"
    using assms(4) by (auto simp: sa_v3_def Let_def)
  show ?thesis
    using sa_loop_inv[OF i assms(3) L] r by (simp add: sa_inv_def good_def)
qed

subsection \<open>Local search and fractional translation\<close>

lemma fold_rel:
  assumes "\<And>s. R s s" "\<And>a b c. R a b \<Longrightarrow> R b c \<Longrightarrow> R a c"
    and "\<And>x s. x \<in> set xs \<Longrightarrow> R s (f x s)"
  shows "R s (fold f xs s)"
  using assms(3)
proof (induction xs arbitrary: s)
  case Nil
  then show ?case using assms(1) by simp
next
  case (Cons x xs)
  have "R s (f x s)" using Cons.prems by simp
  moreover have "R (f x s) (fold f xs (f x s))" using Cons.IH Cons.prems by simp
  ultimately show ?case using assms(2) by fastforce
qed

lemma bs_le_refl: "bs_le s s" by (simp add: bs_le_def)

lemma bs_le_trans: "bs_le a b \<Longrightarrow> bs_le b c \<Longrightarrow> bs_le a c" by (simp add: bs_le_def)

lemma try_shift_le: "0 \<le> tol \<Longrightarrow> bs_le s (try_shift tol i sx sy s)"
  by (cases s) (simp add: try_shift_def bs_le_def Let_def)

lemma try_rot_le: "0 \<le> tol \<Longrightarrow> bs_le s (try_rot tol i da s)"
  by (cases s) (simp add: try_rot_def bs_le_def Let_def)

lemma ls_poly_le: "bs_le s (ls_poly i s)"
proof -
  have t: "0 \<le> ls_tol" by (simp add: ls_tol_def)
  have 1: "bs_le s (fold (\<lambda>st. fold (\<lambda>d. try_shift ls_tol i (of_int (ls_dx ! d) * st)
                                                          (of_int (ls_dy ! d) * st)) [0..<8]) ls_ps s)" for s
    by (intro fold_rel[where R = bs_le] bs_le_refl try_shift_le t) (erule (1) bs_le_trans)+
  have 2: "bs_le s (fold (\<lambda>st. fold (\<lambda>da. try_rot ls_tol i da) [st, - st]) ls_rs s)" for s
    by (intro fold_rel[where R = bs_le] bs_le_refl try_rot_le t) (erule (1) bs_le_trans)+
  show ?thesis
    unfolding ls_poly_def Let_def using bs_le_trans[OF 1 2] .
qed

lemma ls_pass_le: "bs_le (best, bs, False) (ls_pass k (best, bs))"
proof -
  have 1: "bs_le s (fold ls_poly xs s)" for s xs
    by (intro fold_rel[where R = bs_le] bs_le_refl ls_poly_le) (erule (1) bs_le_trans)
  have 2: "bs_le s (fold (\<lambda>i s. if i \<in> set cs then s else ls_poly i s) xs s)" for s xs cs
    by (intro fold_rel[where R = bs_le] bs_le_refl) (erule (1) bs_le_trans, simp add: bs_le_refl ls_poly_le)
  show ?thesis
    unfolding ls_pass_def Let_def prod.case using bs_le_trans[OF 1 2] .
qed

lemma ft_pass_le: "bs_le (best, bs, False) (ft_pass k (best, bs))"
proof -
  have t: "0 \<le> ft_tol" by (simp add: ft_tol_def)
  show ?thesis
    unfolding ft_pass_def prod.case
    by (intro fold_rel[where R = bs_le] bs_le_refl try_shift_le t) (erule (1) bs_le_trans)+
qed

lemma ls_keeps_refl: "ls_keeps k s s" by (simp add: ls_keeps_def)

lemma ls_keeps_trans: "ls_keeps k a b \<Longrightarrow> ls_keeps k b c \<Longrightarrow> ls_keeps k a c"
  by (auto simp: ls_keeps_def)

lemma one_consistent:
  assumes "consistent cur" "cfg_n t0 = cfg_n cur" "cfg_pl t0 = cfg_pl cur"
    and "\<forall>j. j \<noteq> i \<longrightarrow> cfg_x t0 j = cfg_x cur j \<and> cfg_y t0 j = cfg_y cur j \<and> cfg_a t0 j = cfg_a cur j"
  shows "consistent (upd i t0)"
  using assms unfolding consistent_def by simp

lemma one_undo:
  assumes "consistent cur" "i < cfg_n cur" "cfg_n t0 = cfg_n cur" "cfg_pl t0 = cfg_pl cur"
    and "\<forall>j. j \<noteq> i \<longrightarrow> cfg_x t0 j = cfg_x cur j \<and> cfg_y t0 j = cfg_y cur j \<and> cfg_a t0 j = cfg_a cur j"
  shows "upd i (set_a i (cfg_a cur i) (set_y i (cfg_y cur i) (set_x i (cfg_x cur i) (upd i t0)))) = cur"
proof -
  have pl: "getPoly (cfg_x cur i) (cfg_y cur i) (cfg_a cur i) = cfg_pl cur i"
    using assms(1,2) by (simp add: consistent_def)
  show ?thesis
    by (rule Cfg.equality) (use assms(3-5) pl in \<open>auto simp: fun_eq_iff\<close>)
qed

lemma try_shift_keeps:
  assumes "i < k"
  shows "ls_keeps k s (try_shift tol i sx sy s)"
proof -
  obtain best bs imp where s: "s = (best, bs, imp)" by (cases s) auto
  define t0 where "t0 = set_y i (cfg_y best i + sy) (set_x i (cfg_x best i + sx) best)"
  have t0p: "cfg_n t0 = cfg_n best" "cfg_pl t0 = cfg_pl best"
    "\<forall>j. j \<noteq> i \<longrightarrow> cfg_x t0 j = cfg_x best j \<and> cfg_y t0 j = cfg_y best j \<and> cfg_a t0 j = cfg_a best j"
    "cfg_a t0 i = cfg_a best i"
    unfolding t0_def by simp_all
  have undo_eq: "upd i (set_y i (cfg_y best i) (set_x i (cfg_x best i) (upd i t0)))
        = upd i (set_a i (cfg_a best i) (set_y i (cfg_y best i) (set_x i (cfg_x best i) (upd i t0))))"
    by (rule Cfg.equality) (use t0p in \<open>auto simp: fun_eq_iff\<close>)
  have eq: "try_shift tol i sx sy (best, bs, imp) =
      (if \<not> hasOvl (upd i t0) i \<and> side (upd i t0) < bs - tol then (upd i t0, side (upd i t0), True)
       else (upd i (set_a i (cfg_a best i) (set_y i (cfg_y best i) (set_x i (cfg_x best i) (upd i t0)))),
             bs, imp))"
    unfolding try_shift_def t0_def[symmetric] undo_eq[symmetric]
    by (simp add: Let_def t0_def)
  show ?thesis
  proof (cases "cfg_n best = k \<and> consistent best")
    case False
    then show ?thesis unfolding ls_keeps_def s by auto
  next
    case True
    then have il: "i < cfg_n best" using assms by simp
    note U = one_undo[OF conjunct2[OF True] il t0p(1,2,3)]
    note C = one_consistent[OF conjunct2[OF True] t0p(1,2,3)]
    have F: "separated best \<Longrightarrow> \<not> hasOvl (upd i t0) i \<Longrightarrow> separated (upd i t0)"
      by (rule feasible_after_one[of best _ i]) (use t0p in simp_all)
    show ?thesis
      unfolding s ls_keeps_def eq using True U C F t0p(1) by auto
  qed
qed

lemma try_rot_keeps:
  assumes "i < k"
  shows "ls_keeps k s (try_rot tol i da s)"
proof -
  obtain best bs imp where s: "s = (best, bs, imp)" by (cases s) auto
  define t0 where "t0 = set_a i (fmod (cfg_a best i + da + 360) 360) best"
  have t0p: "cfg_n t0 = cfg_n best" "cfg_pl t0 = cfg_pl best"
    "\<forall>j. j \<noteq> i \<longrightarrow> cfg_x t0 j = cfg_x best j \<and> cfg_y t0 j = cfg_y best j \<and> cfg_a t0 j = cfg_a best j"
    "cfg_x t0 i = cfg_x best i" "cfg_y t0 i = cfg_y best i"
    unfolding t0_def by simp_all
  have undo_eq: "upd i (set_a i (cfg_a best i) (upd i t0))
        = upd i (set_a i (cfg_a best i) (set_y i (cfg_y best i) (set_x i (cfg_x best i) (upd i t0))))"
    by (rule Cfg.equality) (use t0p in \<open>auto simp: fun_eq_iff\<close>)
  have eq: "try_rot tol i da (best, bs, imp) =
      (if \<not> hasOvl (upd i t0) i \<and> side (upd i t0) < bs - tol then (upd i t0, side (upd i t0), True)
       else (upd i (set_a i (cfg_a best i) (set_y i (cfg_y best i) (set_x i (cfg_x best i) (upd i t0)))),
             bs, imp))"
    unfolding try_rot_def t0_def[symmetric] undo_eq[symmetric]
    by (simp add: Let_def t0_def)
  show ?thesis
  proof (cases "cfg_n best = k \<and> consistent best")
    case False
    then show ?thesis unfolding ls_keeps_def s by auto
  next
    case True
    then have il: "i < cfg_n best" using assms by simp
    note U = one_undo[OF conjunct2[OF True] il t0p(1,2,3)]
    note C = one_consistent[OF conjunct2[OF True] t0p(1,2,3)]
    have F: "separated best \<Longrightarrow> \<not> hasOvl (upd i t0) i \<Longrightarrow> separated (upd i t0)"
      by (rule feasible_after_one[of best _ i]) (use t0p in simp_all)
    show ?thesis
      unfolding s ls_keeps_def eq using True U C F t0p(1) by auto
  qed
qed

lemma ls_poly_keeps: "i < k \<Longrightarrow> ls_keeps k s (ls_poly i s)"
proof -
  assume il: "i < k"
  have 1: "ls_keeps k s (fold (\<lambda>st. fold (\<lambda>d. try_shift ls_tol i (of_int (ls_dx ! d) * st)
                                                          (of_int (ls_dy ! d) * st)) [0..<8]) ls_ps s)" for s
    by (intro fold_rel[where R = "ls_keeps k"] ls_keeps_refl try_shift_keeps il) (erule (1) ls_keeps_trans)+
  have 2: "ls_keeps k s (fold (\<lambda>st. fold (\<lambda>da. try_rot ls_tol i da) [st, - st]) ls_rs s)" for s
    by (intro fold_rel[where R = "ls_keeps k"] ls_keeps_refl try_rot_keeps il) (erule (1) ls_keeps_trans)+
  show ?thesis
    unfolding ls_poly_def Let_def using ls_keeps_trans[OF 1 2] .
qed

lemma ls_pass_keeps:
  assumes "cfg_n best = k"
  shows "ls_keeps k (best, bs, False) (ls_pass k (best, bs))"
proof -
  have 1: "ls_keeps k s (fold ls_poly (findCornerTrees best) s)" for s
    by (intro fold_rel[where R = "ls_keeps k"] ls_keeps_refl ls_poly_keeps)
       (erule (1) ls_keeps_trans, use findCornerTrees_less assms in blast)
  have 2: "ls_keeps k s (fold (\<lambda>i s. if i \<in> set cs then s else ls_poly i s) [0..<k] s)" for s cs
    by (intro fold_rel[where R = "ls_keeps k"] ls_keeps_refl)
       (erule (1) ls_keeps_trans, simp add: ls_keeps_refl ls_poly_keeps)
  show ?thesis
    unfolding ls_pass_def Let_def prod.case using ls_keeps_trans[OF 1 2] .
qed

lemma ft_pass_keeps: "ls_keeps k (best, bs, False) (ft_pass k (best, bs))"
  unfolding ft_pass_def prod.case
proof (intro fold_rel[where R = "ls_keeps k"] ls_keeps_refl try_shift_keeps)
  show "\<And>a b c. ls_keeps k a b \<Longrightarrow> ls_keeps k b c \<Longrightarrow> ls_keeps k a c"
    by (rule ls_keeps_trans)
  show "\<And>a b c. ls_keeps k a b \<Longrightarrow> ls_keeps k b c \<Longrightarrow> ls_keeps k a c"
    by (rule ls_keeps_trans)
  show "\<And>a b c. ls_keeps k a b \<Longrightarrow> ls_keeps k b c \<Longrightarrow> ls_keeps k a c"
    by (rule ls_keeps_trans)
  show "\<And>x. x \<in> set [0..<k] \<Longrightarrow> x < k" by simp
qed

lemma ls_loop_le: "ls_loop m k (best, bs) = (best', bs') \<Longrightarrow> bs' \<le> bs"
proof (induction m arbitrary: best bs)
  case 0
  then show ?case by simp
next
  case (Suc m)
  obtain b1 bs1 imp where P: "ls_pass k (best, bs) = (b1, bs1, imp)" by (metis prod_cases3)
  have "bs1 \<le> bs" using ls_pass_le[of best bs k] P by (simp add: bs_le_def)
  then show ?case using Suc.IH[of b1 bs1] Suc.prems P by (auto split: if_splits)
qed

lemma ft_loop_le: "ft_loop m k (best, bs) = (best', bs') \<Longrightarrow> bs' \<le> bs"
proof (induction m arbitrary: best bs)
  case 0
  then show ?case by simp
next
  case (Suc m)
  obtain b1 bs1 imp where P: "ft_pass k (best, bs) = (b1, bs1, imp)" by (metis prod_cases3)
  have "bs1 \<le> bs" using ft_pass_le[of best bs k] P by (simp add: bs_le_def)
  then show ?case using Suc.IH[of b1 bs1] Suc.prems P by (auto split: if_splits)
qed

lemma ls_loop_keeps:
  "cfg_n best = k \<Longrightarrow> consistent best \<Longrightarrow> ls_loop m k (best, bs) = (best', bs') \<Longrightarrow>
   cfg_n best' = k \<and> consistent best' \<and> (side best = bs \<longrightarrow> side best' = bs') \<and>
   (separated best \<longrightarrow> separated best')"
proof (induction m arbitrary: best bs)
  case 0
  then show ?case by simp
next
  case (Suc m)
  obtain b1 bs1 imp where P: "ls_pass k (best, bs) = (b1, bs1, imp)" by (metis prod_cases3)
  have K: "cfg_n b1 = k \<and> consistent b1 \<and> (side best = bs \<longrightarrow> side b1 = bs1) \<and>
           (separated best \<longrightarrow> separated b1)"
    using ls_pass_keeps[OF Suc.prems(1), of bs] P Suc.prems(1,2) by (simp add: ls_keeps_def)
  show ?case
  proof (cases imp)
    case False
    then have "best' = b1" "bs' = bs1" using Suc.prems(3) P by simp_all
    then show ?thesis using K by simp
  next
    case True
    then have R: "ls_loop m k (b1, bs1) = (best', bs')" using Suc.prems(3) P by simp
    show ?thesis using Suc.IH[OF _ _ R] K by simp
  qed
qed

lemma ft_loop_keeps:
  "cfg_n best = k \<Longrightarrow> consistent best \<Longrightarrow> ft_loop m k (best, bs) = (best', bs') \<Longrightarrow>
   cfg_n best' = k \<and> consistent best' \<and> (side best = bs \<longrightarrow> side best' = bs') \<and>
   (separated best \<longrightarrow> separated best')"
proof (induction m arbitrary: best bs)
  case 0
  then show ?case by simp
next
  case (Suc m)
  obtain b1 bs1 imp where P: "ft_pass k (best, bs) = (b1, bs1, imp)" by (metis prod_cases3)
  have K: "cfg_n b1 = k \<and> consistent b1 \<and> (side best = bs \<longrightarrow> side b1 = bs1) \<and>
           (separated best \<longrightarrow> separated b1)"
    using ft_pass_keeps[of k best bs] P Suc.prems(1,2) by (simp add: ls_keeps_def)
  show ?case
  proof (cases imp)
    case False
    then have "best' = b1" "bs' = bs1" using Suc.prems(3) P by simp_all
    then show ?thesis using K by simp
  next
    case True
    then have R: "ft_loop m k (b1, bs1) = (best', bs')" using Suc.prems(3) P by simp
    show ?thesis using Suc.IH[OF _ _ R] K by simp
  qed
qed

lemma ls_v3_props:
  assumes "consistent c"
  shows "consistent (ls_v3 c iter) \<and> cfg_n (ls_v3 c iter) = cfg_n c \<and>
         side (ls_v3 c iter) \<le> side c \<and> (separated c \<longrightarrow> separated (ls_v3 c iter))"
proof -
  obtain b' bs' where L: "ls_loop (nat iter) (cfg_n c) (c, side c) = (b', bs')" by (metis surj_pair)
  have "ls_v3 c iter = b'" using L by (simp add: ls_v3_def)
  then show ?thesis
    using ls_loop_keeps[OF refl assms L] ls_loop_le[OF L] by simp
qed

lemma fractional_translation_props:
  assumes "consistent c"
  shows "consistent (fractional_translation c iter) \<and> cfg_n (fractional_translation c iter) = cfg_n c \<and>
         side (fractional_translation c iter) \<le> side c \<and>
         (separated c \<longrightarrow> separated (fractional_translation c iter))"
proof -
  obtain b' bs' where L: "ft_loop (nat iter) (cfg_n c) (c, side c) = (b', bs')" by (metis surj_pair)
  have "fractional_translation c iter = b'" using L by (simp add: fractional_translation_def)
  then show ?thesis
    using ft_loop_keeps[OF refl assms L] ft_loop_le[OF L] by simp
qed

text \<open>Overlap resolution and compression.\<close>

lemma resolve_pair_quiet:
  assumes "resolve_pair step i j (c, g, any) = (c', g', False)"
  shows "c' = c \<and> g' = g \<and> \<not> any \<and> \<not> overlap (cfg_pl c i) (cfg_pl c j)"
  using assms by (auto simp: resolve_pair_def case_prod_beta split: if_splits)

lemma resolve_inner_quiet:
  "fold (\<lambda>j. resolve_pair step i j) js (c, g, any) = (c', g', False) \<Longrightarrow>
   c' = c \<and> g' = g \<and> \<not> any \<and> (\<forall>j\<in>set js. \<not> overlap (cfg_pl c i) (cfg_pl c j))"
proof (induction js arbitrary: c g any)
  case Nil
  then show ?case by simp
next
  case (Cons j js)
  obtain c1 g1 a1 where S: "resolve_pair step i j (c, g, any) = (c1, g1, a1)" by (metis prod_cases3)
  have R: "fold (\<lambda>j. resolve_pair step i j) js (c1, g1, a1) = (c', g', False)"
    using Cons.prems S by simp
  from Cons.IH[OF R] have 1: "c' = c1" "g' = g1" "\<not> a1"
    "\<forall>j\<in>set js. \<not> overlap (cfg_pl c1 i) (cfg_pl c1 j)" by simp_all
  from resolve_pair_quiet[of step i j c g any c1 g1] S 1(3)
  have 2: "c1 = c" "g1 = g" "\<not> any" "\<not> overlap (cfg_pl c i) (cfg_pl c j)" by simp_all
  show ?case using 1 2 by simp
qed

lemma resolve_outer_quiet:
  "fold (\<lambda>i s. fold (\<lambda>j. resolve_pair step i j) [i + 1..<k] s) is (c, g, any) = (c', g', False) \<Longrightarrow>
   c' = c \<and> g' = g \<and> \<not> any \<and>
   (\<forall>i\<in>set is. \<forall>j\<in>set [i + 1..<k]. \<not> overlap (cfg_pl c i) (cfg_pl c j))"
proof (induction "is" arbitrary: c g any)
  case Nil
  then show ?case by simp
next
  case (Cons i "is")
  obtain c1 g1 a1 where S: "fold (\<lambda>j. resolve_pair step i j) [i + 1..<k] (c, g, any) = (c1, g1, a1)"
    by (metis prod_cases3)
  have R: "fold (\<lambda>i s. fold (\<lambda>j. resolve_pair step i j) [i + 1..<k] s) is (c1, g1, a1) = (c', g', False)"
    using Cons.prems S by simp
  from Cons.IH[OF R] have 1: "c' = c1" "g' = g1" "\<not> a1"
    "\<forall>i\<in>set is. \<forall>j\<in>set [i + 1..<k]. \<not> overlap (cfg_pl c1 i) (cfg_pl c1 j)" by simp_all
  from resolve_inner_quiet[of step i "[i + 1..<k]" c g any c1 g1] S 1(3)
  have 2: "c1 = c" "g1 = g" "\<not> any" "\<forall>j\<in>set [i + 1..<k]. \<not> overlap (cfg_pl c i) (cfg_pl c j)"
    by simp_all
  show ?case using 1 2 by simp
qed

lemma resolve_pass_quiet:
  assumes "resolve_pass step c g = (c', g', False)"
  shows "c' = c \<and> \<not> anyOvl c"
proof -
  from resolve_outer_quiet[OF assms[unfolded resolve_pass_def]]
  show ?thesis unfolding anyOvl_def list_ex_iff by auto
qed

lemma resolve_loop_true: "resolve_loop m step c g = (True, c') \<Longrightarrow> \<not> anyOvl c'"
proof (induction m arbitrary: c g)
  case 0
  then show ?case by auto
next
  case (Suc m)
  obtain c1 g1 a1 where P: "resolve_pass step c g = (c1, g1, a1)" by (metis prod_cases3)
  show ?case
  proof (cases a1)
    case False
    then show ?thesis using Suc.prems P resolve_pass_quiet[of step c g c1 g1] by auto
  next
    case True
    then show ?thesis using Suc.prems P Suc.IH[of c1 g1] by simp
  qed
qed

lemma compress_loop_feasible:
  "\<not> anyOvl best \<Longrightarrow> \<not> anyOvl (compress_loop mt factor relax_iters relax_step seed k s best)"
proof (induction k arbitrary: s best)
  case 0
  then show ?case by simp
next
  case (Suc k)
  obtain ok cand where R: "resolve_overlaps mt (scale_cfg best factor) relax_iters relax_step
             (seed + word_of_int (s * 1337)) = (ok, cand)" by (metis surj_pair)
  show ?case
  proof (cases ok)
    case False
    then show ?thesis using R Suc.prems by simp
  next
    case True
    then have "\<not> anyOvl cand"
      using R resolve_loop_true unfolding resolve_overlaps_def by simp
    then show ?thesis using R True Suc.IH by simp
  qed
qed

lemma compress_cfg_feasible:
  "\<not> anyOvl c \<Longrightarrow> \<not> anyOvl (compress_cfg mt c steps factor relax_iters relax_step seed)"
  by (simp add: compress_cfg_def compress_loop_feasible)

subsection \<open>Random initialisation\<close>

lemma place_try_true:
  "place_try t half i c g = (True, c', g') \<Longrightarrow>
   cfg_n c' = cfg_n c \<and> (\<forall>j. j \<noteq> i \<longrightarrow> cfg_pl c' j = cfg_pl c j) \<and>
   (\<forall>j. j < i \<longrightarrow> \<not> overlap (cfg_pl c' i) (cfg_pl c' j))"
proof (induction t arbitrary: c g)
  case 0
  then show ?case by simp
next
  case (Suc t)
  define c1 where "c1 = upd i (set_a i (fst (rf (snd (rf (snd (rf g))))) * 360)
                         (set_y i ((fst (rf (snd (rf g))) * 2 - 1) * half)
                           (set_x i ((fst (rf g) * 2 - 1) * half) c)))"
  define g3 where "g3 = snd (rf (snd (rf (snd (rf g)))))"
  have eq: "place_try (Suc t) half i c g =
      (if \<not> list_ex (\<lambda>j. overlap (cfg_pl c1 i) (cfg_pl c1 j)) [0..<i] then (True, c1, g3)
       else place_try t half i c1 g3)"
    unfolding c1_def g3_def by (simp only: place_try.simps Let_def case_prod_beta)
  have c1p: "cfg_n c1 = cfg_n c" "\<forall>j. j \<noteq> i \<longrightarrow> cfg_pl c1 j = cfg_pl c j"
    unfolding c1_def by simp_all
  show ?case
  proof (cases "list_ex (\<lambda>j. overlap (cfg_pl c1 i) (cfg_pl c1 j)) [0..<i]")
    case False
    then have "c' = c1" using Suc.prems eq by simp
    then show ?thesis using False c1p by (auto simp: list_ex_iff)
  next
    case True
    then have "place_try t half i c1 g3 = (True, c', g')" using Suc.prems eq by simp
    from Suc.IH[OF this] show ?thesis using c1p by auto
  qed
qed

lemma place_all_true:
  "place_all ma half [lo..<k] c g = (True, c', g') \<Longrightarrow>
   (\<forall>a b. a < b \<and> b < lo \<longrightarrow> \<not> overlap (cfg_pl c b) (cfg_pl c a)) \<Longrightarrow>
   cfg_n c' = cfg_n c \<and> (\<forall>a b. a < b \<and> b < k \<longrightarrow> \<not> overlap (cfg_pl c' b) (cfg_pl c' a))"
proof (induction "k - lo" arbitrary: lo c g)
  case 0
  then have E: "[lo..<k] = []" by simp
  have "c' = c" using "0.prems"(1) unfolding E by simp
  then show ?case using "0.prems"(2) "0.hyps" by auto
next
  case (Suc d)
  then have lo: "lo < k" by simp
  then have L: "[lo..<k] = lo # [Suc lo..<k]" by (simp add: upt_conv_Cons)
  obtain placed c1 g1 where T: "place_try ma half lo c g = (placed, c1, g1)" by (metis prod_cases3)
  have pl: "placed" using Suc.prems(1) T unfolding L by (auto split: if_splits)
  then have R: "place_all ma half [Suc lo..<k] c1 g1 = (True, c', g')"
    using Suc.prems(1) T unfolding L by simp
  have T': "place_try ma half lo c g = (True, c1, g1)" using T pl by simp
  from place_try_true[OF T']
  have P: "cfg_n c1 = cfg_n c" "\<forall>j. j \<noteq> lo \<longrightarrow> cfg_pl c1 j = cfg_pl c j"
    "\<forall>j. j < lo \<longrightarrow> \<not> overlap (cfg_pl c1 lo) (cfg_pl c1 j)" by blast+
  have inv: "\<forall>a b. a < b \<and> b < Suc lo \<longrightarrow> \<not> overlap (cfg_pl c1 b) (cfg_pl c1 a)"
  proof (intro allI impI)
    fix a b assume ab: "a < b \<and> b < Suc lo"
    show "\<not> overlap (cfg_pl c1 b) (cfg_pl c1 a)"
    proof (cases "b = lo")
      case True
      then show ?thesis using P(3) ab by simp
    next
      case False
      then have "a \<noteq> lo" "b \<noteq> lo" "b < lo" using ab by simp_all
      then show ?thesis using P(2) Suc.prems(2) ab by simp
    qed
  qed
  have d: "d = k - Suc lo" using Suc.hyps(2) by simp
  from Suc.hyps(1)[OF d R inv] show ?case using P(1) by simp
qed

lemma init_attempts_feasible:
  "init_attempts m pl0 k base_side max_attempts scale g = Some r \<Longrightarrow>
   (\<forall>a b. a < b \<and> b < cfg_n r \<longrightarrow> \<not> overlap (cfg_pl r b) (cfg_pl r a)) \<and> cfg_n r = k"
proof (induction m arbitrary: scale g)
  case 0
  then show ?case by simp
next
  case (Suc m)
  define c0 where "c0 = \<lparr>cfg_n = k, cfg_x = (\<lambda>_. 0), cfg_y = (\<lambda>_. 0), cfg_a = (\<lambda>_. 0), cfg_pl = pl0\<rparr>"
  obtain ok c1 g1 where A: "place_all (nat max_attempts) (base_side * scale * 0.5) [0..<k] c0 g = (ok, c1, g1)"
    by (metis prod_cases3)
  show ?case
  proof (cases ok)
    case True
    then have "r = c1" using Suc.prems A by (simp add: Let_def c0_def)
    moreover have "cfg_n c1 = cfg_n c0 \<and> (\<forall>a b. a < b \<and> b < k \<longrightarrow> \<not> overlap (cfg_pl c1 b) (cfg_pl c1 a))"
      by (rule place_all_true[of "nat max_attempts" _ 0 k c0 g c1 g1]) (use A True in simp_all)
    ultimately show ?thesis by (auto simp: c0_def)
  next
    case False
    then have "init_attempts m pl0 k base_side max_attempts (scale * 1.08) g1 = Some r"
      using Suc.prems A by (simp add: Let_def c0_def)
    then show ?thesis by (rule Suc.IH)
  qed
qed

lemma random_init_cfg_feasible:
  "random_init_cfg mt pl0 k base_side side_scale tries max_attempts seed = Some r \<Longrightarrow>
   (\<forall>a b. a < b \<and> b < cfg_n r \<longrightarrow> \<not> overlap (cfg_pl r b) (cfg_pl r a))"
  unfolding random_init_cfg_def using init_attempts_feasible by blast

subsection \<open>The refinements never worsen the side\<close>

lemma try_shift_strict:
  "fst (snd (try_shift tol i sx sy (best, bs, imp))) = bs \<or>
   fst (snd (try_shift tol i sx sy (best, bs, imp))) < bs - tol"
  by (simp add: try_shift_def Let_def)

lemma try_rot_strict:
  "fst (snd (try_rot tol i da (best, bs, imp))) = bs \<or>
   fst (snd (try_rot tol i da (best, bs, imp))) < bs - tol"
  by (simp add: try_rot_def Let_def)

lemma consistent_cfg_of: "consistent (cfg_of ps)"
  by (simp add: consistent_def)

text \<open>
  Claim C4, amended. For a consistent input, the configuration returned by \<^verbatim>\<open>ls_v3\<close> and
  by \<^verbatim>\<open>fractional_translation\<close> has a side no larger than the input's, for every
  iteration bound. The tracked side \<open>bs\<close> after a pass is no larger than before it, from
  any state; and a single trial either leaves \<open>bs\<close> as it is or lowers it by more than the
  tolerance (\<open>1e-10\<close> in the local search, \<open>1e-12\<close> in the fractional translation).
\<close>

theorem refinement_never_worsens_side:
  "(consistent c \<longrightarrow> side (ls_v3 c iter) \<le> side c \<and> side (fractional_translation c max_iter) \<le> side c) \<and>
   fst (snd (ls_pass k (best, bs))) \<le> bs \<and> fst (snd (ft_pass k (best, bs))) \<le> bs \<and>
   (fst (snd (try_shift ls_tol i sx sy (best, bs, imp))) = bs \<or>
    fst (snd (try_shift ls_tol i sx sy (best, bs, imp))) < bs - 0.0000000001) \<and>
   (fst (snd (try_rot ls_tol i da (best, bs, imp))) = bs \<or>
    fst (snd (try_rot ls_tol i da (best, bs, imp))) < bs - 0.0000000001) \<and>
   (fst (snd (try_shift ft_tol i sx sy (best, bs, imp))) = bs \<or>
    fst (snd (try_shift ft_tol i sx sy (best, bs, imp))) < bs - 0.000000000001)"
  using ls_v3_props[of c iter] fractional_translation_props[of c max_iter]
    ls_pass_le[of best bs k] ft_pass_le[of best bs k]
    try_shift_strict[of ls_tol i sx sy best bs imp] try_rot_strict[of ls_tol i da best bs imp]
    try_shift_strict[of ft_tol i sx sy best bs imp]
  by (simp add: bs_le_def ls_tol_def ft_tol_def)

theorem refinement_never_worsens_side_witness:
  "side (ls_v3 cfg_apart 300) \<le> 11 \<and> side (fractional_translation cfg_apart 150) \<le> 11 \<and>
   fst (snd (ls_pass 2 (cfg_apart, 11))) \<le> 11 \<and> fst (snd (ft_pass 2 (cfg_apart, 11))) \<le> 11"
proof -
  have c: "consistent cfg_apart" unfolding cfg_apart_def by (rule consistent_cfg_of)
  show ?thesis
    using refinement_never_worsens_side[of cfg_apart 300 150 2 cfg_apart 11 0 0 0 False 0] c
    by (simp add: side_apart)
qed

text \<open>
  Without consistency the side can grow: on the configuration whose cache is still all
  zero the side is 0; the first trial of \<^verbatim>\<open>fractional_translation\<close> rebuilds the polygon
  from the pose, no trial is kept, and the configuration returned has the rebuilt
  polygon and a positive side.
\<close>

lemma side_upd_single: "cfg_n t = Suc 0 \<Longrightarrow> 0 \<le> side (upd 0 t)"
  unfolding side_def using getPoly_le[of "cfg_x t 0" "cfg_y t 0" "cfg_a t 0"]
  by (simp add: Let_def max_def)

lemma try_shift_single:
  assumes n: "cfg_n c = Suc 0" and tol: "0 \<le> tol"
  shows "try_shift tol 0 sx sy (c, 0, False) = (upd 0 c, 0, False)"
proof -
  define t where "t = upd 0 (set_y 0 (cfg_y c 0 + sy) (set_x 0 (cfg_x c 0 + sx) c))"
  have und: "upd 0 (set_y 0 (cfg_y c 0) (set_x 0 (cfg_x c 0) t)) = upd 0 c"
    unfolding t_def by (rule Cfg.equality) (auto simp: fun_eq_iff)
  have "cfg_n (set_y 0 (cfg_y c 0 + sy) (set_x 0 (cfg_x c 0 + sx) c)) = Suc 0" using n by simp
  then have "0 \<le> side t" unfolding t_def by (rule side_upd_single)
  then have nl: "\<not> side t < 0 - tol" using tol by simp
  have "try_shift tol 0 sx sy (c, 0, False) =
          (if \<not> hasOvl t 0 then
             (if side t < 0 - tol then (t, side t, True)
              else (upd 0 (set_y 0 (cfg_y c 0) (set_x 0 (cfg_x c 0) t)), 0, False))
           else (upd 0 (set_y 0 (cfg_y c 0) (set_x 0 (cfg_x c 0) t)), 0, False))"
    unfolding try_shift_def t_def by (simp add: Let_def)
  then show ?thesis using nl und by simp
qed

lemma upd_upd: "upd i (upd i c) = upd i c"
  by (rule Cfg.equality) (auto simp: fun_eq_iff)

lemma fold_try_shift_single:
  assumes "cfg_n c = Suc 0" "0 \<le> tol"
  shows "fold (\<lambda>d. try_shift tol 0 (f d) (g d)) ds (upd 0 c, 0, False) = (upd 0 c, 0, False)"
proof (induction ds)
  case Nil
  show ?case by simp
next
  case (Cons d ds)
  have "try_shift tol 0 (f d) (g d) (upd 0 c, 0, False) = (upd 0 c, 0, False)"
    using try_shift_single[of "upd 0 c" tol "f d" "g d"] assms by (simp add: upd_upd)
  then show ?case using Cons.IH by simp
qed

lemma ft_pass_stale: "ft_pass (Suc 0) (cfg_stale, 0) = (upd 0 cfg_stale, 0, False)"
proof -
  define F where "F = (\<lambda>st. fold (\<lambda>d. try_shift ft_tol 0 (ft_dx ! d * st) (ft_dy ! d * st)) [0..<8])"
  have n: "cfg_n cfg_stale = Suc 0" by (simp add: cfg_stale_def)
  have tol: "0 \<le> ft_tol" by (simp add: ft_tol_def)
  have e: "[0..<8] = 0 # [1..<8]" by (simp add: upt_rec)
  have first: "F st (cfg_stale, 0, False) = (upd 0 cfg_stale, 0, False)" for st
    unfolding F_def e fold_simps try_shift_single[OF n tol]
    by (rule fold_try_shift_single[OF n tol])
  have rest: "fold F sts (upd 0 cfg_stale, 0, False) = (upd 0 cfg_stale, 0, False)" for sts
    by (induction sts) (simp_all add: F_def fold_try_shift_single[OF n tol])
  have "frac_steps = hd frac_steps # tl frac_steps" by (simp add: frac_steps_def)
  then obtain a as where fs: "frac_steps = a # as" by blast
  have "ft_pass (Suc 0) (cfg_stale, 0) = fold F frac_steps (cfg_stale, 0, False)"
    unfolding ft_pass_def F_def by simp
  also have "\<dots> = (upd 0 cfg_stale, 0, False)"
    unfolding fs fold_simps first by (rule rest)
  finally show ?thesis .
qed

lemma side_stale: "side cfg_stale = 0"
  by (simp add: side_def cfg_stale_def poly_zero_def)

lemma side_origin: "side (upd 0 cfg_stale) = 1"
  unfolding side_def cfg_stale_def by (simp add: getPoly_deg0_box)

theorem stale_cache_counterexample:
  "\<not> consistent cfg_stale \<and> side cfg_stale = 0 \<and>
   side (fractional_translation cfg_stale 1) = 1 \<and>
   \<not> side (fractional_translation cfg_stale 1) \<le> side cfg_stale"
proof -
  have ft: "fractional_translation cfg_stale 1 = upd 0 cfg_stale"
    unfolding fractional_translation_def side_stale
    using ft_pass_stale by (simp add: cfg_stale_def)
  have "x1 (cfg_pl cfg_stale 0) \<noteq> x1 (getPoly (cfg_x cfg_stale 0) (cfg_y cfg_stale 0) (cfg_a cfg_stale 0))"
    by (simp add: cfg_stale_def poly_zero_def getPoly_deg0_box)
  then have "\<not> consistent cfg_stale"
    unfolding consistent_def by (metis cfg_stale_def Cfg.select_convs(1) zero_less_one)
  then show ?thesis unfolding ft side_origin side_stale by simp
qed

subsection \<open>Feasible in, feasible out\<close>

lemma not_anyOvl_apart: "\<not> anyOvl cfg_apart"
  unfolding anyOvl_iff cfg_apart_def
  by (auto simp: overlap_def getPoly_deg0_box less_Suc_eq)

lemma anyOvl_twin: "anyOvl cfg_twin"
proof -
  have "(0::nat) < 1 \<and> 1 < cfg_n cfg_twin \<and> overlap (cfg_pl cfg_twin 0) (cfg_pl cfg_twin 1)"
    using overlap_self[of 0 0 0] by (simp add: cfg_twin_def)
  then show ?thesis unfolding anyOvl_iff by blast
qed

lemma sa_loop_one: "sa_loop (Suc 0) k T0 Tm ms rs alpha st = sa_step k T0 Tm ms rs alpha st"
  by (simp split: option.splits)

lemma sa_apart_step:
  "map_option sa_best (sa_step 2 1 0.000005 0.25 70 alpha (sa_init cfg_apart 1 (mt_zero 0)))
   = Some cfg_apart"
  unfolding sa_init_def sa_step_def sa_move_def move_single_def mt_zero_def ri_def rf_def
    rng_next_def Let_def hasOvl_def metropolis_def sa_accept_def sa_reject_def reheat_cool_def
    side_def cfg_apart_def overlap_def
  by (simp add: getPoly_deg0_box upt_rec)

lemma sa_apart_run: "sa_v3 mt_zero cfg_apart 1 1 0.000005 0.25 70 0 = Some cfg_apart"
proof -
  have 1: "nat 1 = Suc 0" by simp
  have n: "cfg_n cfg_apart = 2" by (simp add: cfg_apart_def)
  show ?thesis unfolding sa_v3_def Let_def 1 n sa_loop_one by (rule sa_apart_step)
qed

lemma twin_shifted_overlap: "overlap (getPoly (- 0.25) (- 0.25) 0) (getPoly 0 0 0)"
  unfolding overlap_def getPoly_def bbox_def pip_def NV_def TX_def TY_def Let_def
  by (simp add: upt_rec)

lemma sa_twin_step:
  "map_option sa_best (sa_step 2 1 0.000005 0.25 70 alpha (sa_init cfg_twin 1 (mt_zero 0)))
   = Some cfg_twin"
  unfolding sa_init_def sa_step_def sa_move_def move_single_def mt_zero_def ri_def rf_def
    rng_next_def Let_def hasOvl_def cfg_twin_def
  using twin_shifted_overlap
  by (simp add: upt_rec)

lemma sa_twin_run: "sa_v3 mt_zero cfg_twin 1 1 0.000005 0.25 70 0 = Some cfg_twin"
proof -
  have 1: "nat 1 = Suc 0" by simp
  have n: "cfg_n cfg_twin = 2" by (simp add: cfg_twin_def)
  show ?thesis unfolding sa_v3_def Let_def 1 n sa_loop_one by (rule sa_twin_step)
qed

lemma random_init_run:
  "random_init_cfg mt_zero (\<lambda>i. getPoly 0 0 0) 1 1 1.2 1 1 0
   = Some (upd 0 (set_a 0 0 (set_y 0 (- 0.6) (set_x 0 (- 0.6)
       \<lparr>cfg_n = 1, cfg_x = (\<lambda>_. 0), cfg_y = (\<lambda>_. 0), cfg_a = (\<lambda>_. 0),
        cfg_pl = (\<lambda>i. getPoly 0 0 0)\<rparr>))))"
  unfolding random_init_cfg_def mt_zero_def
  by (simp add: Let_def rf_def rng_next_def)

text \<open>
  Claim C1, amended. From a consistent input on which \<^verbatim>\<open>anyOvl\<close> is false (and with at
  least one polygon), every configuration returned by \<^verbatim>\<open>sa_v3\<close>, \<^verbatim>\<open>ls_v3\<close> and
  \<^verbatim>\<open>fractional_translation\<close> is separated: no two of its polygons overlap in both
  argument orders. \<^verbatim>\<open>compress_cfg\<close> returns a configuration on which \<^verbatim>\<open>anyOvl\<close> is false.
  Every configuration \<^verbatim>\<open>random_init_cfg\<close> delivers is separated. The proofs use no
  property of \<^verbatim>\<open>overlap\<close> but that it is a function of the two cached polygons.
\<close>

theorem feasible_in_feasible_out:
  assumes "consistent c" "\<not> anyOvl c" "0 < cfg_n c"
  shows "(\<forall>r. sa_v3 mt c iter T0 Tm ms rs seed = Some r \<longrightarrow> separated r) \<and>
         separated (ls_v3 c ls_iter) \<and>
         separated (fractional_translation c max_iter) \<and>
         \<not> anyOvl (compress_cfg mt c steps factor relax_iters relax_step cseed) \<and>
         (\<forall>r. random_init_cfg mt pl0 k base_side side_scale tries max_attempts rseed = Some r
               \<longrightarrow> separated r)"
proof -
  note s = separated_of_feasible[OF assms(2)]
  have "\<And>r. random_init_cfg mt pl0 k base_side side_scale tries max_attempts rseed = Some r
          \<Longrightarrow> separated r"
    using random_init_cfg_feasible[of mt pl0 k base_side side_scale tries max_attempts rseed]
    unfolding separated_iff by (metis nat_neq_iff)
  then show ?thesis
    using sa_v3_feasible[OF assms(1) s assms(3), of mt iter T0 Tm ms rs seed]
      ls_v3_props[OF assms(1), of ls_iter] fractional_translation_props[OF assms(1), of max_iter]
      compress_cfg_feasible[OF assms(2), of mt steps factor relax_iters relax_step cseed] s
    by blast
qed

theorem feasible_in_feasible_out_witness:
  "(\<exists>r. sa_v3 mt_zero cfg_apart 1 1 0.000005 0.25 70 0 = Some r \<and> separated r) \<and>
   separated (ls_v3 cfg_apart 300) \<and>
   separated (fractional_translation cfg_apart 150) \<and>
   \<not> anyOvl (compress_cfg mt_zero cfg_apart 3 0.99 60 0.02 0) \<and>
   (\<exists>r. random_init_cfg mt_zero (\<lambda>i. getPoly 0 0 0) 1 1 1.2 1 1 0 = Some r \<and> separated r)"
proof -
  have c: "consistent cfg_apart" unfolding cfg_apart_def by (rule consistent_cfg_of)
  have n: "0 < cfg_n cfg_apart" by (simp add: cfg_apart_def)
  show ?thesis
    using feasible_in_feasible_out[OF c not_anyOvl_apart n, of mt_zero 1 1 "0.000005" "0.25" 70 0
        300 150 3 "0.99" 60 "0.02" 0 "\<lambda>i. getPoly 0 0 0" 1 1 "1.2" 1 1 0]
      sa_apart_run random_init_run
    by simp
qed

text \<open>
  The claim as stated, for every input, fails: the two trees on top of each other are
  returned as they are by one annealing step, and by the other operators run with no
  iteration.
\<close>

theorem infeasible_input_counterexample:
  "consistent cfg_twin \<and> anyOvl cfg_twin \<and>
   sa_v3 mt_zero cfg_twin 1 1 0.000005 0.25 70 0 = Some cfg_twin \<and>
   anyOvl (ls_v3 cfg_twin 0) \<and>
   anyOvl (fractional_translation cfg_twin 0) \<and>
   anyOvl (compress_cfg mt_zero cfg_twin 0 0.99 60 0.02 0)"
proof -
  have c: "consistent cfg_twin" unfolding cfg_twin_def by (rule consistent_cfg_of)
  show ?thesis
    using c anyOvl_twin sa_twin_run
    by (simp add: ls_v3_def fractional_translation_def compress_cfg_def)
qed

subsection \<open>Pushing an overlapping pair apart\<close>












subsection \<open>The CSV loaders\<close>

lemma collect_eq:
  "collect rows k =
     (if group_rows k rows = [] then None else Some (map row_tuple (group_rows k rows)))"
proof (induction rows rule: rev_induct)
  case Nil
  then show ?case by (simp add: collect_def group_rows_def)
next
  case (snoc r rows)
  have "collect (rows @ [r]) =
          (collect rows)(row_n r \<mapsto> (case collect rows (row_n r) of None \<Rightarrow> [] | Some v \<Rightarrow> v)
                                      @ [(row_idx r, row_x r, row_y r, row_d r)])"
    by (simp add: collect_def)
  then show ?case using snoc by (auto simp: group_rows_def row_tuple_def)
qed

lemma set_pose_commute:
  assumes "fst t \<noteq> fst u"
  shows "set_pose k t (set_pose k u s) = set_pose k u (set_pose k t s)"
proof (cases s)
  case (Inl e)
  then show ?thesis by (simp add: set_pose_def)
next
  case (Inr c)
  obtain i vx vy vd where t: "t = (i, vx, vy, vd)" by (metis prod_cases4)
  obtain j wx wy wd where u: "u = (j, wx, wy, wd)" by (metis prod_cases4)
  have ne: "i \<noteq> j" using assms t u by simp
  show ?thesis
  proof (cases "(i < k \<longrightarrow> 0 \<le> i \<and> i < int MAX_N) \<and> (j < k \<longrightarrow> 0 \<le> j \<and> j < int MAX_N)")
    case False
    then show ?thesis unfolding Inr t u by (auto simp: set_pose_def)
  next
    case True
    show ?thesis
    proof (cases "i < k \<and> j < k")
      case False
      then show ?thesis using True unfolding Inr t u by (auto simp: set_pose_def)
    next
      case ij: True
      then have "nat i \<noteq> nat j" using True ne by auto
      then have "set_a (nat i) vd (set_y (nat i) vy (set_x (nat i) vx
                   (set_a (nat j) wd (set_y (nat j) wy (set_x (nat j) wx c)))))
               = set_a (nat j) wd (set_y (nat j) wy (set_x (nat j) wx
                   (set_a (nat i) vd (set_y (nat i) vy (set_x (nat i) vx c)))))"
        by (intro Cfg.equality) (auto simp: fun_eq_iff)
      then show ?thesis using True ij unfolding Inr t u by (simp add: set_pose_def)
    qed
  qed
qed

lemma distinct_group_idx:
  "distinct (map row_key rows) \<Longrightarrow> distinct (map row_idx (group_rows k rows))"
proof (induction rows)
  case Nil
  then show ?case by (simp add: group_rows_def)
next
  case (Cons r rows)
  have IH: "distinct (map row_idx (group_rows k rows))" using Cons by simp
  have new: "row_key r \<notin> row_key ` set rows" using Cons.prems by simp
  show ?case
  proof (cases "row_n r = k")
    case False
    then show ?thesis using IH by (simp add: group_rows_def)
  next
    case True
    have "row_idx r \<notin> row_idx ` set (group_rows k rows)"
    proof
      assume "row_idx r \<in> row_idx ` set (group_rows k rows)"
      then obtain r' where "r' \<in> set rows" "row_n r' = k" "row_idx r' = row_idx r"
        by (auto simp: group_rows_def)
      then have "row_key r' = row_key r" using True by (simp add: row_key_def)
      then show False using new \<open>r' \<in> set rows\<close> by (metis imageI)
    qed
    then show ?thesis using IH True by (simp add: group_rows_def)
  qed
qed

lemma fold_set_pose_perm:
  assumes "distinct (map fst v)" "mset v = mset w"
  shows "fold (set_pose k) v = fold (set_pose k) w"
proof (rule fold_multiset_equiv[OF _ assms(2)])
  fix t u assume "t \<in> set v" "u \<in> set v"
  show "set_pose k t \<circ> set_pose k u = set_pose k u \<circ> set_pose k t"
  proof (cases "t = u")
    case True
    then show ?thesis by simp
  next
    case False
    then have "fst t \<noteq> fst u"
      using assms(1) \<open>t \<in> set v\<close> \<open>u \<in> set v\<close> by (meson distinct_map inj_onD)
    then show ?thesis using set_pose_commute by (auto simp: fun_eq_iff)
  qed
qed

lemma loadCSV_perm:
  assumes "distinct (map row_key rows)" "mset rows = mset rows'"
  shows "loadCSV pl0 (Some rows) = loadCSV pl0 (Some rows')"
proof (rule ext)
  fix k
  have m: "mset (map row_tuple (group_rows k rows)) = mset (map row_tuple (group_rows k rows'))"
    using assms(2) by (simp add: group_rows_def)
  then have e: "group_rows k rows = [] \<longleftrightarrow> group_rows k rows' = []"
    by (metis map_is_Nil_conv mset_zero_iff)
  have d: "distinct (map fst (map row_tuple (group_rows k rows)))"
    using distinct_group_idx[OF assms(1), of k] by (simp add: o_def row_tuple_def)
  have "load_group pl0 k (map row_tuple (group_rows k rows))
        = load_group pl0 k (map row_tuple (group_rows k rows'))"
    unfolding load_group_def fold_set_pose_perm[OF d m] ..
  then show "loadCSV pl0 (Some rows) k = loadCSV pl0 (Some rows') k"
    using e by (simp add: loadCSV_def collect_eq)
qed

lemma set_pose_skip: "k \<le> fst t \<Longrightarrow> set_pose k t s = s"
  by (cases s; cases t) (simp_all add: set_pose_def)

lemma fold_set_pose_filter:
  "fold (set_pose k) v s = fold (set_pose k) (filter (\<lambda>t. fst t < k) v) s"
proof (induction v arbitrary: s)
  case Nil
  then show ?case by simp
next
  case (Cons t v)
  then show ?case by (cases "fst t < k") (simp_all add: set_pose_skip)
qed

lemma load_group_filter: "load_group pl0 k v = load_group pl0 k (filter (\<lambda>t. fst t < k) v)"
  unfolding load_group_def using fold_set_pose_filter[of k v] by simp

lemma fold_set_pose_ok:
  assumes "\<forall>t\<in>set v. fst t < k \<longrightarrow> 0 \<le> fst t \<and> fst t < int MAX_N"
  shows "\<exists>c. fold (set_pose k) v (Inr c0) = Inr c \<and> cfg_n c = cfg_n c0 \<and> cfg_pl c = cfg_pl c0 \<and>
             (\<forall>j. (\<forall>t\<in>set v. fst t < k \<longrightarrow> fst t \<noteq> int j) \<longrightarrow>
                  cfg_x c j = cfg_x c0 j \<and> cfg_y c j = cfg_y c0 j \<and> cfg_a c j = cfg_a c0 j) \<and>
             (distinct (map fst v) \<longrightarrow>
                (\<forall>t\<in>set v. fst t < k \<longrightarrow>
                   cfg_x c (nat (fst t)) = fst (snd t) \<and> cfg_y c (nat (fst t)) = fst (snd (snd t)) \<and>
                   cfg_a c (nat (fst t)) = snd (snd (snd t))))"
  using assms
proof (induction v arbitrary: c0)
  case Nil
  then show ?case by simp
next
  case (Cons t v)
  obtain i vx vy vd where t: "t = (i, vx, vy, vd)" by (metis prod_cases4)
  define c1 where "c1 = (if i < k then set_a (nat i) vd (set_y (nat i) vy (set_x (nat i) vx c0)) else c0)"
  have s1: "set_pose k t (Inr c0) = Inr c1"
    using Cons.prems unfolding t c1_def by (simp add: set_pose_def)
  have b: "\<forall>t\<in>set v. fst t < k \<longrightarrow> 0 \<le> fst t \<and> fst t < int MAX_N" using Cons.prems by simp
  from Cons.IH[OF b, of c1] obtain c where
    c: "fold (set_pose k) v (Inr c1) = Inr c" "cfg_n c = cfg_n c1" "cfg_pl c = cfg_pl c1"
    and frame: "\<And>j. (\<forall>t\<in>set v. fst t < k \<longrightarrow> fst t \<noteq> int j) \<Longrightarrow>
                  cfg_x c j = cfg_x c1 j \<and> cfg_y c j = cfg_y c1 j \<and> cfg_a c j = cfg_a c1 j"
    and vals: "distinct (map fst v) \<Longrightarrow> (\<forall>t\<in>set v. fst t < k \<longrightarrow>
                   cfg_x c (nat (fst t)) = fst (snd t) \<and> cfg_y c (nat (fst t)) = fst (snd (snd t)) \<and>
                   cfg_a c (nat (fst t)) = snd (snd (snd t)))"
    by blast
  have c1f: "cfg_n c1 = cfg_n c0" "cfg_pl c1 = cfg_pl c0" by (simp_all add: c1_def)
  have 1: "fold (set_pose k) (t # v) (Inr c0) = Inr c" using s1 c(1) by simp
  have 2: "cfg_x c j = cfg_x c0 j \<and> cfg_y c j = cfg_y c0 j \<and> cfg_a c j = cfg_a c0 j"
    if "\<forall>u\<in>set (t # v). fst u < k \<longrightarrow> fst u \<noteq> int j" for j
  proof -
    have "cfg_x c1 j = cfg_x c0 j \<and> cfg_y c1 j = cfg_y c0 j \<and> cfg_a c1 j = cfg_a c0 j"
      using that Cons.prems unfolding c1_def t by auto
    then show ?thesis using frame[of j] that by simp
  qed
  have 3: "\<forall>u\<in>set (t # v). fst u < k \<longrightarrow>
                   cfg_x c (nat (fst u)) = fst (snd u) \<and> cfg_y c (nat (fst u)) = fst (snd (snd u)) \<and>
                   cfg_a c (nat (fst u)) = snd (snd (snd u))"
    if d: "distinct (map fst (t # v))"
  proof (intro ballI impI)
    fix u assume u: "u \<in> set (t # v)" "fst u < k"
    show "cfg_x c (nat (fst u)) = fst (snd u) \<and> cfg_y c (nat (fst u)) = fst (snd (snd u)) \<and>
                   cfg_a c (nat (fst u)) = snd (snd (snd u))"
    proof (cases "u = t")
      case False
      then show ?thesis using vals u d by simp
    next
      case True
      have ib: "i < k" "0 \<le> i" using u True t Cons.prems by simp_all
      have "\<forall>w\<in>set v. fst w < k \<longrightarrow> fst w \<noteq> int (nat i)"
        using d ib t by (auto simp: image_iff)
      from frame[OF this] show ?thesis unfolding True t c1_def using ib by simp
    qed
  qed
  show ?case
  proof (intro exI[of _ c] conjI)
    show "fold (set_pose k) (t # v) (Inr c0) = Inr c" by (rule 1)
    show "cfg_n c = cfg_n c0" using c(2) c1f by simp
    show "cfg_pl c = cfg_pl c0" using c(3) c1f by simp
    show "\<forall>j. (\<forall>t\<in>set (t # v). fst t < k \<longrightarrow> fst t \<noteq> int j) \<longrightarrow>
                  cfg_x c j = cfg_x c0 j \<and> cfg_y c j = cfg_y c0 j \<and> cfg_a c j = cfg_a c0 j"
      using 2 by blast
    show "distinct (map fst (t # v)) \<longrightarrow>
                (\<forall>t\<in>set (t # v). fst t < k \<longrightarrow>
                   cfg_x c (nat (fst t)) = fst (snd t) \<and> cfg_y c (nat (fst t)) = fst (snd (snd t)) \<and>
                   cfg_a c (nat (fst t)) = snd (snd (snd t)))"
      using 3 by blast
  qed
qed

lemma sg_count_eq:
  "sg_count rows g = (if group_rows g rows = [] then None else Some (length (group_rows g rows)))"
proof (induction rows rule: rev_induct)
  case Nil
  then show ?case by (simp add: sg_count_def group_rows_def)
next
  case (snoc r rows)
  have "sg_count (rows @ [r]) =
          (sg_count rows)(row_n r \<mapsto> (case sg_count rows (row_n r) of None \<Rightarrow> 0 | Some k \<Rightarrow> k) + 1)"
    by (simp add: sg_count_def)
  then show ?case using snoc by (auto simp: group_rows_def)
qed

lemma update_at_end:
  assumes "length xs = i" "i < length ts"
  shows "(xs @ drop i ts)[i := x] = (xs @ [x]) @ drop (Suc i) ts"
proof -
  have "drop i ts = ts ! i # drop (Suc i) ts" using assms(2) by (simp add: Cons_nth_drop_Suc)
  then show ?thesis using assms(1) by (simp add: list_update_append)
qed


lemma sg_fill_state:
  fixes res0 :: "int \<rightharpoonup> sg_Cfg"
  defines "c0 \<equiv> (\<lambda>g. case res0 g of None \<Rightarrow> sg_Cfg_new 0 | Some c \<Rightarrow> c)"
  defines "F \<equiv> (\<lambda>r (res, idx).
                  (let g = row_n r;
                       i = (case idx g of None \<Rightarrow> 0 | Some k \<Rightarrow> k);
                       c = (case res g of None \<Rightarrow> sg_Cfg_new 0 | Some c \<Rightarrow> c)
                   in (res(g \<mapsto> c\<lparr>sg_t := (sg_t c)[i := \<lparr>tree_x = row_x r, tree_y = row_y r,
                                                          tree_deg = row_d r\<rparr>]\<rparr>),
                       idx(g \<mapsto> i + 1))))"
  assumes "\<forall>g. length (group_rows g rows) \<le> length (sg_t (c0 g))"
  shows "fold F rows (res0, Map.empty) =
          (\<lambda>g. if group_rows g rows = [] then res0 g
                else Some ((c0 g)\<lparr>sg_t := map tree_of_row (group_rows g rows)
                                          @ drop (length (group_rows g rows)) (sg_t (c0 g))\<rparr>),
           \<lambda>g. if group_rows g rows = [] then None else Some (length (group_rows g rows)))"
  using assms(3)
proof (induction rows rule: rev_induct)
  case Nil
  then show ?case by (simp add: group_rows_def)
next
  case (snoc r rows)
  have H: "\<forall>g. length (group_rows g rows) \<le> length (sg_t (c0 g))"
    using snoc.prems by (auto simp: group_rows_def split: if_splits) (metis Suc_leD)
  note IH = snoc.IH[OF H]
  define g where "g = row_n r"
  define fs where "fs = group_rows g rows"
  have lt: "length fs < length (sg_t (c0 g))"
    using snoc.prems[rule_format, of g] by (simp add: group_rows_def g_def fs_def)
  have grp: "group_rows g (rows @ [r]) = fs @ [r]" "\<And>h. h \<noteq> g \<Longrightarrow> group_rows h (rows @ [r]) = group_rows h rows"
    by (auto simp: group_rows_def g_def fs_def)
  have upd: "(map tree_of_row fs @ drop (length fs) (sg_t (c0 g)))[length fs := tree_of_row r]
             = map tree_of_row (fs @ [r]) @ drop (Suc (length fs)) (sg_t (c0 g))"
    using update_at_end[of "map tree_of_row fs" "length fs" "sg_t (c0 g)" "tree_of_row r"] lt by simp
  have upd0: "(sg_t (c0 g))[0 := tree_of_row r] = [tree_of_row r] @ drop (Suc 0) (sg_t (c0 g))"
    using lt by (cases "sg_t (c0 g)") simp_all
  define A where "A = (\<lambda>g. if group_rows g rows = [] then res0 g
                else Some ((c0 g)\<lparr>sg_t := map tree_of_row (group_rows g rows)
                                          @ drop (length (group_rows g rows)) (sg_t (c0 g))\<rparr>))"
  define B where "B = (\<lambda>g. if group_rows g rows = [] then None else Some (length (group_rows g rows)))"
  have Fr: "F r (A, B) =
       (A(g \<mapsto> (case A g of None \<Rightarrow> sg_Cfg_new 0 | Some c \<Rightarrow> c)
                  \<lparr>sg_t := (sg_t (case A g of None \<Rightarrow> sg_Cfg_new 0 | Some c \<Rightarrow> c))
                             [(case B g of None \<Rightarrow> 0 | Some k \<Rightarrow> k) := tree_of_row r]\<rparr>),
        B(g \<mapsto> (case B g of None \<Rightarrow> 0 | Some k \<Rightarrow> k) + 1))"
    by (simp add: F_def Let_def g_def tree_of_row_def)
  have newc: "(case A g of None \<Rightarrow> sg_Cfg_new 0 | Some c \<Rightarrow> c)
                  \<lparr>sg_t := (sg_t (case A g of None \<Rightarrow> sg_Cfg_new 0 | Some c \<Rightarrow> c))
                             [(case B g of None \<Rightarrow> 0 | Some k \<Rightarrow> k) := tree_of_row r]\<rparr>
              = (c0 g)\<lparr>sg_t := map tree_of_row (fs @ [r]) @ drop (length (fs @ [r])) (sg_t (c0 g))\<rparr>"
  proof (cases "fs = []")
    case True
    then have "A g = res0 g" "B g = None" by (simp_all add: A_def B_def fs_def)
    then show ?thesis using True upd0 by (simp add: c0_def)
  next
    case False
    then have "A g = Some ((c0 g)\<lparr>sg_t := map tree_of_row fs @ drop (length fs) (sg_t (c0 g))\<rparr>)"
      "B g = Some (length fs)" by (simp_all add: A_def B_def fs_def)
    then show ?thesis using upd by simp
  qed
  have "fold F (rows @ [r]) (res0, Map.empty) = F r (fold F rows (res0, Map.empty))" by simp
  also have "\<dots> = F r (A, B)" unfolding IH A_def B_def ..
  also have "\<dots> =
          (\<lambda>h. if group_rows h (rows @ [r]) = [] then res0 h
                else Some ((c0 h)\<lparr>sg_t := map tree_of_row (group_rows h (rows @ [r]))
                                          @ drop (length (group_rows h (rows @ [r]))) (sg_t (c0 h))\<rparr>),
           \<lambda>h. if group_rows h (rows @ [r]) = [] then None else Some (length (group_rows h (rows @ [r]))))"
  proof -
    have 1: "A(g \<mapsto> (c0 g)\<lparr>sg_t := map tree_of_row (fs @ [r]) @ drop (length (fs @ [r])) (sg_t (c0 g))\<rparr>)
          = (\<lambda>h. if group_rows h (rows @ [r]) = [] then res0 h
                else Some ((c0 h)\<lparr>sg_t := map tree_of_row (group_rows h (rows @ [r]))
                                          @ drop (length (group_rows h (rows @ [r]))) (sg_t (c0 h))\<rparr>))"
    proof (rule ext)
      fix h
      show "(A(g \<mapsto> (c0 g)\<lparr>sg_t := map tree_of_row (fs @ [r]) @ drop (length (fs @ [r])) (sg_t (c0 g))\<rparr>)) h
          = (if group_rows h (rows @ [r]) = [] then res0 h
                else Some ((c0 h)\<lparr>sg_t := map tree_of_row (group_rows h (rows @ [r]))
                                          @ drop (length (group_rows h (rows @ [r]))) (sg_t (c0 h))\<rparr>))"
        using grp by (cases "h = g") (simp_all add: A_def)
    qed
    have 2: "B(g \<mapsto> (case B g of None \<Rightarrow> 0 | Some k \<Rightarrow> k) + 1)
          = (\<lambda>h. if group_rows h (rows @ [r]) = [] then None else Some (length (group_rows h (rows @ [r]))))"
    proof (rule ext)
      fix h
      show "(B(g \<mapsto> (case B g of None \<Rightarrow> 0 | Some k \<Rightarrow> k) + 1)) h
          = (if group_rows h (rows @ [r]) = [] then None else Some (length (group_rows h (rows @ [r]))))"
        using grp by (cases "h = g") (simp_all add: B_def fs_def)
    qed
    show ?thesis unfolding Fr newc 1 2 ..
  qed
  finally show ?case .
qed

lemma sg_loadCSV_eq:
  "sg_loadCSV rows g =
     (if group_rows g rows = [] then None
      else Some (sg_updAll ((sg_Cfg_new (length (group_rows g rows)))
                              \<lparr>sg_t := map tree_of_row (group_rows g rows)\<rparr>)))"
proof -
  define res0 where "res0 = (\<lambda>g. map_option sg_Cfg_new (sg_count rows g))"
  have r0: "res0 h = (if group_rows h rows = [] then None
                      else Some (sg_Cfg_new (length (group_rows h rows))))" for h
    by (simp add: res0_def sg_count_eq)
  have len: "\<forall>h. length (group_rows h rows)
                 \<le> length (sg_t (case res0 h of None \<Rightarrow> sg_Cfg_new 0 | Some c \<Rightarrow> c))"
    by (simp add: r0 sg_Cfg_new_def)
  have "sg_fill rows res0 g =
          (if group_rows g rows = [] then res0 g
           else Some ((case res0 g of None \<Rightarrow> sg_Cfg_new 0 | Some c \<Rightarrow> c)
                        \<lparr>sg_t := map tree_of_row (group_rows g rows)
                                  @ drop (length (group_rows g rows))
                                      (sg_t (case res0 g of None \<Rightarrow> sg_Cfg_new 0 | Some c \<Rightarrow> c))\<rparr>))"
    unfolding sg_fill_def sg_fill_state[OF len] by simp
  then have "sg_fill rows res0 g =
          (if group_rows g rows = [] then None
           else Some ((sg_Cfg_new (length (group_rows g rows)))
                        \<lparr>sg_t := map tree_of_row (group_rows g rows)\<rparr>))"
    by (simp add: r0 sg_Cfg_new_def)
  then show ?thesis
    by (simp add: sg_loadCSV_def Let_def res0_def)
qed

lemma loadCSV_group:
  assumes r: "r \<in> set rows" and d: "distinct (map row_key rows)" and n: "row_n r \<le> int MAX_N"
    and nn: "\<forall>r'\<in>set rows. row_n r' = row_n r \<longrightarrow> 0 \<le> row_idx r'"
  shows "\<exists>c. loadCSV pl0 (Some rows) (row_n r) = Some (Inr c) \<and> cfg_n c = nat (row_n r) \<and>
             (row_idx r < row_n r \<longrightarrow>
                cfg_x c (nat (row_idx r)) = row_x r \<and> cfg_y c (nat (row_idx r)) = row_y r \<and>
                cfg_a c (nat (row_idx r)) = row_d r) \<and>
             (\<forall>j. (\<forall>r'\<in>set rows. row_n r' = row_n r \<longrightarrow> row_idx r' \<noteq> int j) \<longrightarrow>
                  cfg_x c j = 0 \<and> cfg_y c j = 0 \<and> cfg_a c j = 0)"
proof -
  define k where "k = row_n r"
  define v where "v = map row_tuple (group_rows k rows)"
  define c0 where "c0 = \<lparr>cfg_n = nat k, cfg_x = (\<lambda>_. 0), cfg_y = (\<lambda>_. 0), cfg_a = (\<lambda>_. 0), cfg_pl = pl0\<rparr>"
  have rin: "r \<in> set (group_rows k rows)" using r by (simp add: group_rows_def k_def)
  have setv: "set v = row_tuple ` {r' \<in> set rows. row_n r' = k}"
    by (auto simp: v_def group_rows_def)
  have b: "\<forall>t\<in>set v. fst t < k \<longrightarrow> 0 \<le> fst t \<and> fst t < int MAX_N"
    using nn n unfolding setv k_def by (auto simp: row_tuple_def)
  have dv: "distinct (map fst v)"
    using distinct_group_idx[OF d, of k] by (simp add: v_def o_def row_tuple_def)
  from fold_set_pose_ok[OF b, of c0] obtain c where
    c: "fold (set_pose k) v (Inr c0) = Inr c" "cfg_n c = cfg_n c0"
    and frame: "\<And>j. (\<forall>t\<in>set v. fst t < k \<longrightarrow> fst t \<noteq> int j) \<Longrightarrow>
                  cfg_x c j = cfg_x c0 j \<and> cfg_y c j = cfg_y c0 j \<and> cfg_a c j = cfg_a c0 j"
    and vals: "\<forall>t\<in>set v. fst t < k \<longrightarrow>
                   cfg_x c (nat (fst t)) = fst (snd t) \<and> cfg_y c (nat (fst t)) = fst (snd (snd t)) \<and>
                   cfg_a c (nat (fst t)) = snd (snd (snd t))"
    using dv by blast
  have L: "loadCSV pl0 (Some rows) k = Some (Inr (updAll c))"
    using rin c(1) n by (auto simp: loadCSV_def collect_eq load_group_def v_def c0_def k_def)
  have V: "row_idx r < k \<Longrightarrow> cfg_x c (nat (row_idx r)) = row_x r \<and> cfg_y c (nat (row_idx r)) = row_y r \<and>
                cfg_a c (nat (row_idx r)) = row_d r"
    using vals[rule_format, of "row_tuple r"] rin by (simp add: v_def row_tuple_def)
  have Fm: "cfg_x c j = 0 \<and> cfg_y c j = 0 \<and> cfg_a c j = 0"
    if "\<forall>r'\<in>set rows. row_n r' = k \<longrightarrow> row_idx r' \<noteq> int j" for j
  proof -
    have "\<forall>t\<in>set v. fst t < k \<longrightarrow> fst t \<noteq> int j"
      using that unfolding setv by (auto simp: row_tuple_def)
    from frame[OF this] show ?thesis by (simp add: c0_def)
  qed
  show ?thesis
    unfolding k_def[symmetric]
    by (intro exI[of _ "updAll c"]) (use L V Fm c(2) in \<open>simp add: c0_def\<close>)
qed

lemma sg_t_loaded:
  "map_option sg_t (sg_loadCSV rows g) =
     (if group_rows g rows = [] then None else Some (map tree_of_row (group_rows g rows)))"
  by (simp add: sg_loadCSV_eq)

text \<open>
  Claim C7, amended. The loader of the generation driver gives the same mapping for two
  files whose data rows are permutations of each other, provided no id occurs twice. A
  tuple whose index is not below the group number changes nothing in its group. For a
  group number of at most \<open>MAX_N\<close> whose rows have no negative index, the group is loaded
  with \<open>n\<close> equal to the group number however few rows it has, each row with an index
  below the group number sets that pose, and a pose no row names stays zero. The
  single-group loader does not read the index: it gives a group as many trees as the
  group has rows and fills them with the rows in file order.
\<close>

theorem csv_loaders:
  "(distinct (map row_key rows) \<and> mset rows = mset rows' \<longrightarrow>
      loadCSV pl0 (Some rows) = loadCSV pl0 (Some rows')) \<and>
   load_group pl0 k v = load_group pl0 k (filter (\<lambda>t. fst t < k) v) \<and>
   (r \<in> set rows \<and> distinct (map row_key rows) \<and> row_n r \<le> int MAX_N \<and>
    (\<forall>r'\<in>set rows. row_n r' = row_n r \<longrightarrow> 0 \<le> row_idx r') \<longrightarrow>
      (\<exists>c. loadCSV pl0 (Some rows) (row_n r) = Some (Inr c) \<and> cfg_n c = nat (row_n r) \<and>
           (row_idx r < row_n r \<longrightarrow>
              cfg_x c (nat (row_idx r)) = row_x r \<and> cfg_y c (nat (row_idx r)) = row_y r \<and>
              cfg_a c (nat (row_idx r)) = row_d r) \<and>
           (\<forall>j. (\<forall>r'\<in>set rows. row_n r' = row_n r \<longrightarrow> row_idx r' \<noteq> int j) \<longrightarrow>
                cfg_x c j = 0 \<and> cfg_y c j = 0 \<and> cfg_a c j = 0))) \<and>
   sg_loadCSV rows g =
     (if group_rows g rows = [] then None
      else Some (sg_updAll ((sg_Cfg_new (length (group_rows g rows)))
                              \<lparr>sg_t := map tree_of_row (group_rows g rows)\<rparr>)))"
  using loadCSV_perm[of rows rows' pl0] load_group_filter[of pl0 k v]
    loadCSV_group[of r rows pl0] sg_loadCSV_eq[of rows g]
  by blast

theorem csv_loaders_witness:
  "loadCSV (\<lambda>i. getPoly 0 0 0) (Some rows_pair) = loadCSV (\<lambda>i. getPoly 0 0 0) (Some (rev rows_pair)) \<and>
   (\<exists>c. loadCSV (\<lambda>i. getPoly 0 0 0) (Some rows_pair) 2 = Some (Inr c) \<and> cfg_n c = 2 \<and>
        cfg_x c 0 = 1 \<and> cfg_x c 1 = 5) \<and>
   (\<exists>c. loadCSV (\<lambda>i. getPoly 0 0 0) (Some rows_short) 3 = Some (Inr c) \<and> cfg_n c = 3 \<and>
        cfg_x c 0 = 0 \<and> cfg_x c 1 = 4 \<and> cfg_x c 2 = 0) \<and>
   load_group (\<lambda>i. getPoly 0 0 0) 1 [(7, 3, 0, 0)] = load_group (\<lambda>i. getPoly 0 0 0) 1 [] \<and>
   sg_loadCSV rows_pair 2
     = Some (sg_updAll ((sg_Cfg_new 2)\<lparr>sg_t := [\<lparr>tree_x = 1, tree_y = 0, tree_deg = 0\<rparr>,
                                                \<lparr>tree_x = 5, tree_y = 0, tree_deg = 0\<rparr>]\<rparr>))"
proof -
  let ?pl = "\<lambda>i::nat. getPoly 0 0 0"
  let ?r0 = "\<lparr>row_n = 2, row_idx = 0, row_x = 1, row_y = 0, row_d = 0\<rparr>"
  let ?r1 = "\<lparr>row_n = 2, row_idx = 1, row_x = 5, row_y = 0, row_d = 0\<rparr>"
  let ?s = "\<lparr>row_n = 3, row_idx = 1, row_x = 4, row_y = 0, row_d = 0\<rparr>"
  note T1 = csv_loaders[THEN conjunct1]
  note T2 = csv_loaders[THEN conjunct2, THEN conjunct1]
  note T3 = csv_loaders[THEN conjunct2, THEN conjunct2, THEN conjunct1, THEN mp]
  note T4 = csv_loaders[THEN conjunct2, THEN conjunct2, THEN conjunct2]
  have d: "distinct (map row_key rows_pair)" by (simp add: rows_pair_def row_key_def)
  have m: "mset rows_pair = mset (rev rows_pair)" by simp
  have A: "loadCSV ?pl (Some rows_pair) = loadCSV ?pl (Some (rev rows_pair))"
    using T1[of rows_pair "rev rows_pair" ?pl] d m by blast
  have h0: "?r0 \<in> set rows_pair \<and> distinct (map row_key rows_pair) \<and> row_n ?r0 \<le> int MAX_N \<and>
            (\<forall>r'\<in>set rows_pair. row_n r' = row_n ?r0 \<longrightarrow> 0 \<le> row_idx r')"
    using d by (simp add: rows_pair_def MAX_N_def)
  have h1: "?r1 \<in> set rows_pair \<and> distinct (map row_key rows_pair) \<and> row_n ?r1 \<le> int MAX_N \<and>
            (\<forall>r'\<in>set rows_pair. row_n r' = row_n ?r1 \<longrightarrow> 0 \<le> row_idx r')"
    using d by (simp add: rows_pair_def MAX_N_def)
  obtain c where c: "loadCSV ?pl (Some rows_pair) (row_n ?r0) = Some (Inr c)"
    "cfg_n c = nat (row_n ?r0)"
    "row_idx ?r0 < row_n ?r0 \<longrightarrow> cfg_x c (nat (row_idx ?r0)) = row_x ?r0"
    using T3[of ?r0 rows_pair ?pl, OF h0] by blast
  obtain c' where c': "loadCSV ?pl (Some rows_pair) (row_n ?r1) = Some (Inr c')"
    "row_idx ?r1 < row_n ?r1 \<longrightarrow> cfg_x c' (nat (row_idx ?r1)) = row_x ?r1"
    using T3[of ?r1 rows_pair ?pl, OF h1] by blast
  have same: "c' = c" using c(1) c'(1) by simp
  have B: "\<exists>c. loadCSV ?pl (Some rows_pair) 2 = Some (Inr c) \<and> cfg_n c = 2 \<and>
        cfg_x c 0 = 1 \<and> cfg_x c 1 = 5"
    using c c'(2) unfolding same by (intro exI[of _ c]) simp
  have hs: "?s \<in> set rows_short \<and> distinct (map row_key rows_short) \<and> row_n ?s \<le> int MAX_N \<and>
            (\<forall>r'\<in>set rows_short. row_n r' = row_n ?s \<longrightarrow> 0 \<le> row_idx r')"
    by (simp add: rows_short_def MAX_N_def)
  obtain e where e: "loadCSV ?pl (Some rows_short) (row_n ?s) = Some (Inr e)"
    "cfg_n e = nat (row_n ?s)"
    "row_idx ?s < row_n ?s \<longrightarrow> cfg_x e (nat (row_idx ?s)) = row_x ?s"
    "\<forall>j. (\<forall>r'\<in>set rows_short. row_n r' = row_n ?s \<longrightarrow> row_idx r' \<noteq> int j) \<longrightarrow> cfg_x e j = 0"
    using T3[of ?s rows_short ?pl, OF hs] by blast
  have "cfg_x e 0 = 0" "cfg_x e 2 = 0" using e(4) by (simp_all add: rows_short_def)
  then have C: "\<exists>c. loadCSV ?pl (Some rows_short) 3 = Some (Inr c) \<and> cfg_n c = 3 \<and>
        cfg_x c 0 = 0 \<and> cfg_x c 1 = 4 \<and> cfg_x c 2 = 0"
    using e(1,2,3) by (intro exI[of _ e]) simp
  have D: "load_group ?pl 1 [(7, 3, 0, 0)] = load_group ?pl 1 []"
    using T2[of ?pl 1 "[(7, 3, 0, 0)]"] by simp
  have E: "sg_loadCSV rows_pair 2
     = Some (sg_updAll ((sg_Cfg_new 2)\<lparr>sg_t := [\<lparr>tree_x = 1, tree_y = 0, tree_deg = 0\<rparr>,
                                                \<lparr>tree_x = 5, tree_y = 0, tree_deg = 0\<rparr>]\<rparr>))"
    using T4[of rows_pair 2]
    by (simp add: rows_pair_def group_rows_def tree_of_row_def numeral_2_eq_2)
  show ?thesis using A B C D E by blast
qed

text \<open>
  The claim as stated fails for the single-group loader, where exchanging the two rows
  of a group exchanges its two trees and a row with an index beyond the group number is
  loaded like any other; and it fails for the generation driver on a file in which an
  id occurs twice, where the later row wins.
\<close>

theorem loader_order_counterexample:
  "distinct (map row_key rows_pair) \<and> mset rows_pair = mset (rev rows_pair) \<and>
   sg_loadCSV rows_pair \<noteq> sg_loadCSV (rev rows_pair) \<and>
   map_option sg_t (sg_loadCSV rows_high 1) = Some [\<lparr>tree_x = 3, tree_y = 0, tree_deg = 0\<rparr>] \<and>
   mset rows_dup = mset (rev rows_dup) \<and>
   loadCSV (\<lambda>i. getPoly 0 0 0) (Some rows_dup) \<noteq> loadCSV (\<lambda>i. getPoly 0 0 0) (Some (rev rows_dup))"
proof -
  have 1: "sg_loadCSV rows_pair \<noteq> sg_loadCSV (rev rows_pair)"
  proof
    assume "sg_loadCSV rows_pair = sg_loadCSV (rev rows_pair)"
    then have "map_option sg_t (sg_loadCSV rows_pair 2) = map_option sg_t (sg_loadCSV (rev rows_pair) 2)"
      by simp
    then show False
      unfolding sg_t_loaded by (simp add: rows_pair_def group_rows_def tree_of_row_def)
  qed
  have 2: "map_option sg_t (sg_loadCSV rows_high 1) = Some [\<lparr>tree_x = 3, tree_y = 0, tree_deg = 0\<rparr>]"
    unfolding sg_t_loaded by (simp add: rows_high_def group_rows_def tree_of_row_def)
  have a: "loadCSV (\<lambda>i. getPoly 0 0 0) (Some rows_dup) 1
       = Some (Inr (updAll (set_a 0 0 (set_y 0 0 (set_x 0 5 (set_a 0 0 (set_y 0 0 (set_x 0 1
           \<lparr>cfg_n = 1, cfg_x = (\<lambda>_. 0), cfg_y = (\<lambda>_. 0), cfg_a = (\<lambda>_. 0),
            cfg_pl = (\<lambda>i. getPoly 0 0 0)\<rparr>))))))))"
    by (simp add: loadCSV_def collect_def load_group_def set_pose_def rows_dup_def MAX_N_def)
  have b: "loadCSV (\<lambda>i. getPoly 0 0 0) (Some (rev rows_dup)) 1
       = Some (Inr (updAll (set_a 0 0 (set_y 0 0 (set_x 0 1 (set_a 0 0 (set_y 0 0 (set_x 0 5
           \<lparr>cfg_n = 1, cfg_x = (\<lambda>_. 0), cfg_y = (\<lambda>_. 0), cfg_a = (\<lambda>_. 0),
            cfg_pl = (\<lambda>i. getPoly 0 0 0)\<rparr>))))))))"
    by (simp add: loadCSV_def collect_def load_group_def set_pose_def rows_dup_def MAX_N_def)
  have 3: "loadCSV (\<lambda>i. getPoly 0 0 0) (Some rows_dup) \<noteq> loadCSV (\<lambda>i. getPoly 0 0 0) (Some (rev rows_dup))"
  proof
    assume "loadCSV (\<lambda>i. getPoly 0 0 0) (Some rows_dup) = loadCSV (\<lambda>i. getPoly 0 0 0) (Some (rev rows_dup))"
    then have "loadCSV (\<lambda>i. getPoly 0 0 0) (Some rows_dup) 1
             = loadCSV (\<lambda>i. getPoly 0 0 0) (Some (rev rows_dup)) 1" by simp
    then have "cfg_x (updAll (set_a 0 0 (set_y 0 0 (set_x 0 5 (set_a 0 0 (set_y 0 0 (set_x 0 1
           \<lparr>cfg_n = 1, cfg_x = (\<lambda>_. 0), cfg_y = (\<lambda>_. 0), cfg_a = (\<lambda>_. 0),
            cfg_pl = (\<lambda>i. getPoly 0 0 0)\<rparr>))))))) 0
        = cfg_x (updAll (set_a 0 0 (set_y 0 0 (set_x 0 1 (set_a 0 0 (set_y 0 0 (set_x 0 5
           \<lparr>cfg_n = 1, cfg_x = (\<lambda>_. 0), cfg_y = (\<lambda>_. 0), cfg_a = (\<lambda>_. 0),
            cfg_pl = (\<lambda>i. getPoly 0 0 0)\<rparr>))))))) 0"
      unfolding a b by simp
    then show False by simp
  qed
  show ?thesis
    using 1 2 3 by (simp add: rows_pair_def row_key_def)
qed

end
